theory Spec2Isabelle
  imports Complex_Main "HOL-Library.Char_ord" "HOL-Library.List_Lexorder"
begin

section \<open>Bucket calculator (src/utils/calculations.ts)\<close>

text \<open>
  The functions of \<^verbatim>\<open>calculations.ts\<close> compute on JavaScript numbers.  They are modelled
  over the real numbers: \<^verbatim>\<open>Math.log10\<close> is \<open>log 10\<close>, \<^verbatim>\<open>Math.floor\<close> is the floor
  function, and \<^verbatim>\<open>Math.pow(10, n)\<close>, which the code only calls with an integer exponent,
  is \<open>pow10\<close>.  Rounding of IEEE doubles, \<^verbatim>\<open>NaN\<close> and the infinities are outside this model;
  the logarithms are only meaningful for positive arguments, which is where the
  statements below use them.  An absent (\<^verbatim>\<open>undefined\<close>) field is \<open>None\<close>.
\<close>

record BucketConfig =
  nSigFigs :: "int option"
  mantissa :: "real option"
  actualBucketSize :: real

definition pow10 :: "int \<Rightarrow> real" where
  "pow10 e = (if 0 \<le> e then 10 ^ nat e else 1 / 10 ^ nat (- e))"

definition calculateBucketConfig :: "real \<Rightarrow> real \<Rightarrow> real \<Rightarrow> BucketConfig" where
  "calculateBucketConfig currentPrice desiredBucketSize preferredMantissa =
     (if desiredBucketSize \<le> 0 \<or> currentPrice \<le> 0 then
        \<lparr>nSigFigs = None, mantissa = None, actualBucketSize = 0\<rparr>
      else
        let priceDigits = \<lfloor>log 10 currentPrice\<rfloor> + 1;
            bucketDigits = \<lfloor>log 10 (desiredBucketSize / preferredMantissa)\<rfloor>;
            calculatedSigFigs = priceDigits - bucketDigits;
            sigFigs = max 2 (min 5 calculatedSigFigs);
            bucketSize = preferredMantissa * pow10 (priceDigits - sigFigs);
            mant = (if sigFigs = 5 \<and> (preferredMantissa = 2 \<or> preferredMantissa = 5)
                    then Some preferredMantissa else None)
        in \<lparr>nSigFigs = Some sigFigs, mantissa = mant, actualBucketSize = bucketSize\<rparr>)"

definition generateBucketOptions :: "real \<Rightarrow> real list" where
  "generateBucketOptions currentPrice =
     (if currentPrice \<le> 0 then []
      else
        let priceDigits = \<lfloor>log 10 currentPrice\<rfloor> + 1;
            options = [(5, 5), (5, 2), (4, 1), (3, 1), (2, 1)]
        in map (\<lambda>(sigFigs, mant). mant * pow10 (priceDigits - sigFigs)) options)"

section \<open>WebSocket manager (connection and subscription multiplexing)\<close>

subsection \<open>JavaScript values\<close>

text \<open>
  Subscription parameters (\<^verbatim>\<open>Record<string, unknown>\<close>) and message payloads
  (\<^verbatim>\<open>unknown\<close>, the result of \<^verbatim>\<open>JSON.parse\<close>) are JavaScript values.  An object is the
  list of its own enumerable properties in enumeration order, with distinct keys.
\<close>

datatype jsval =
    JUndefined
  | JNull
  | JBool bool
  | JNum real
  | JStr string
  | JArr "jsval list"
  | JObj "(string \<times> jsval) list"

type_synonym jsobject = "(string \<times> jsval) list"

datatype js_error = TypeError | CallbackError nat

text \<open>Property read \<^verbatim>\<open>obj[key]\<close> on an object: \<^verbatim>\<open>undefined\<close> when the key is absent.\<close>

definition get_prop :: "jsobject \<Rightarrow> string \<Rightarrow> jsval" where
  "get_prop obj key = (case map_of obj key of Some v \<Rightarrow> v | None \<Rightarrow> JUndefined)"

text \<open>Truthiness of a value in a condition (there is no \<^verbatim>\<open>NaN\<close> in this model).\<close>

fun truthy :: "jsval \<Rightarrow> bool" where
  "truthy JUndefined = False"
| "truthy JNull = False"
| "truthy (JBool b) = b"
| "truthy (JNum x) = (x \<noteq> 0)"
| "truthy (JStr s) = (s \<noteq> [])"
| "truthy (JArr xs) = True"
| "truthy (JObj ps) = True"

text \<open>\<^verbatim>\<open>typeof data === "object" && data !== null\<close>\<close>

fun is_object :: "jsval \<Rightarrow> bool" where
  "is_object (JArr xs) = True"
| "is_object (JObj ps) = True"
| "is_object v = False"

text \<open>
  Strict equality \<^verbatim>\<open>a === b\<close> of a value read from a parsed payload and a subscription
  parameter.  Primitives compare by value; objects and arrays compare by reference, and
  a freshly parsed payload never shares an object with the parameters.
\<close>

fun strict_eq :: "jsval \<Rightarrow> jsval \<Rightarrow> bool" where
  "strict_eq JUndefined JUndefined = True"
| "strict_eq JNull JNull = True"
| "strict_eq (JBool a) (JBool b) = (a = b)"
| "strict_eq (JNum a) (JNum b) = (a = b)"
| "strict_eq (JStr a) (JStr b) = (a = b)"
| "strict_eq a b = False"

text \<open>
  The member read \<^verbatim>\<open>item.coin\<close>: a \<^verbatim>\<open>TypeError\<close> on \<^verbatim>\<open>null\<close> and \<^verbatim>\<open>undefined\<close>, the
  property of an object, and \<^verbatim>\<open>undefined\<close> on every other value.
\<close>

fun member_coin :: "jsval \<Rightarrow> js_error + jsval" where
  "member_coin JUndefined = Inl TypeError"
| "member_coin JNull = Inl TypeError"
| "member_coin (JObj ps) = Inr (get_prop ps ''coin'')"
| "member_coin v = Inr JUndefined"

subsection \<open>State of the manager and of its environment\<close>

datatype ConnectionStatus = StConnecting | StConnected | StDisconnected | StError

datatype readyState = CONNECTING | OPEN | CLOSING | CLOSED

text \<open>
  A callback is a function object; the manager only uses its identity (membership in a
  \<^verbatim>\<open>Set\<close>) and calls it.  It is modelled by a number, its identity.  Whether a call of it
  throws is given by a predicate \<open>throws\<close> that the routing functions take as a parameter.
  Callbacks are assumed not to call back into the manager while a message is routed.
\<close>

type_synonym MessageCallback = nat

record Subscription =
  sub_type :: string
  sub_params :: jsobject
  callbacks :: "MessageCallback list"

text \<open>
  The argument of \<^verbatim>\<open>send\<close>: \<^verbatim>\<open>{method, subscription: {type, ...params}}\<close>, kept as the
  method, the type and the parameters it is built from.
\<close>

datatype WireMessage = WireMessage (wm_method: string) (wm_type: string) (wm_params: jsobject)

text \<open>The closure returned by \<^verbatim>\<open>subscribe\<close>, with the variables it captures.\<close>

record Handle =
  h_key :: string
  h_callback :: MessageCallback
  h_type :: string
  h_params :: jsobject

record WebSocketMessage =
  channel :: string
  data :: jsval

text \<open>
  The fields of the class (\<open>socket\<close> is an index into \<open>sockets\<close>; \<open>subscriptions\<close> is the
  \<^verbatim>\<open>Map\<close> in insertion order; a callback \<^verbatim>\<open>Set\<close> is a duplicate-free list in insertion
  order; \<open>reconnectTimeout\<close> is a timer id), followed by the environment: whether
  \<^verbatim>\<open>new WebSocket(url)\<close> throws, the ready state of every socket created so far, the
  messages passed to \<^verbatim>\<open>socket.send\<close> with the socket they went to, the delay of every
  timer set so far (a timer's id is its index), the ids of the timers still pending, the
  callback invocations made, and the handles returned to consumers.  Status listeners
  are not modelled.
\<close>

record WebSocketManager =
  socket :: "nat option"
  subscriptions :: "(string \<times> Subscription) list"
  reconnectAttempts :: nat
  reconnectTimeout :: "nat option"
  status :: ConnectionStatus
  paused :: bool
  ctorThrows :: bool
  sockets :: "readyState list"
  sent :: "(nat \<times> WireMessage) list"
  timers :: "nat list"
  pending :: "nat list"
  delivered :: "(MessageCallback \<times> jsval) list"
  handles :: "Handle list"

definition maxReconnectAttempts :: nat where
  "maxReconnectAttempts = 10"

definition RECONNECT_DELAY_MS :: nat where
  "RECONNECT_DELAY_MS = 2000"

definition MAX_RECONNECT_DELAY_MS :: nat where
  "MAX_RECONNECT_DELAY_MS = 30000"

definition init :: "bool \<Rightarrow> WebSocketManager" where
  "init throwing =
     \<lparr>socket = None, subscriptions = [], reconnectAttempts = 0, reconnectTimeout = None,
      status = StDisconnected, paused = False, ctorThrows = throwing, sockets = [],
      sent = [], timers = [], pending = [], delivered = [], handles = []\<rparr>"

subsection \<open>Topic keys\<close>

text \<open>
  \<^verbatim>\<open>buildKey\<close> sorts \<^verbatim>\<open>Object.keys(params)\<close> (the default sort compares strings by
  their code units), copies the properties into a fresh object in that order, and
  serialises it.  \<^verbatim>\<open>JSON.stringify\<close> belongs to the language, not to this repository:
  it is the parameter \<open>stringify\<close>, a function of the sequence of property insertions
  that built the object.
\<close>

definition sortedParams :: "jsobject \<Rightarrow> jsobject" where
  "sortedParams ps =
     fold (\<lambda>key acc. acc @ [(key, get_prop ps key)]) (sort (map fst ps)) []"

definition buildKey :: "(jsobject \<Rightarrow> string) \<Rightarrow> string \<Rightarrow> jsobject \<Rightarrow> string" where
  "buildKey stringify type ps = type @ '':'' @ stringify (sortedParams ps)"

text \<open>
  A serialiser for closed examples: it agrees with \<^verbatim>\<open>JSON.stringify\<close> on objects whose
  values are strings without characters that need escaping, and writes \<^verbatim>\<open>null\<close> for any
  other value.
\<close>

fun sample_value :: "jsval \<Rightarrow> string" where
  "sample_value (JStr s) = ''\"'' @ s @ ''\"''"
| "sample_value v = ''null''"

fun sample_props :: "jsobject \<Rightarrow> string list" where
  "sample_props [] = []"
| "sample_props ((k, v) # ps) = (''\"'' @ k @ ''\":'' @ sample_value v) # sample_props ps"

fun join_comma :: "string list \<Rightarrow> string" where
  "join_comma [] = []"
| "join_comma [x] = x"
| "join_comma (x # y # ys) = x @ '','' @ join_comma (y # ys)"

definition sample_stringify :: "jsobject \<Rightarrow> string" where
  "sample_stringify ps = ''{'' @ join_comma (sample_props ps) @ ''}''"

subsection \<open>Sending, status, reconnection, connection\<close>

text \<open>\<^verbatim>\<open>this.socket?.readyState === WebSocket.OPEN\<close>\<close>

definition socketOpen :: "WebSocketManager \<Rightarrow> bool" where
  "socketOpen s =
     (case socket s of None \<Rightarrow> False
      | Some i \<Rightarrow> i < length (sockets s) \<and> sockets s ! i = OPEN)"

definition send :: "WireMessage \<Rightarrow> WebSocketManager \<Rightarrow> WebSocketManager" where
  "send message s =
     (case socket s of None \<Rightarrow> s
      | Some i \<Rightarrow> if socketOpen s then s\<lparr>sent := sent s @ [(i, message)]\<rparr> else s)"

definition sendSubscribe :: "string \<Rightarrow> jsobject \<Rightarrow> WebSocketManager \<Rightarrow> WebSocketManager" where
  "sendSubscribe type ps s = send (WireMessage ''subscribe'' type ps) s"

definition sendUnsubscribe :: "string \<Rightarrow> jsobject \<Rightarrow> WebSocketManager \<Rightarrow> WebSocketManager" where
  "sendUnsubscribe type ps s = send (WireMessage ''unsubscribe'' type ps) s"

definition setStatus :: "ConnectionStatus \<Rightarrow> WebSocketManager \<Rightarrow> WebSocketManager" where
  "setStatus st s = s\<lparr>status := st\<rparr>"

text \<open>\<^verbatim>\<open>setTimeout\<close>: a new pending timer, whose id is returned.\<close>

definition setTimeout :: "nat \<Rightarrow> WebSocketManager \<Rightarrow> nat \<times> WebSocketManager" where
  "setTimeout delay s =
     (length (timers s),
      s\<lparr>timers := timers s @ [delay], pending := pending s @ [length (timers s)]\<rparr>)"

definition clearTimeout :: "nat \<Rightarrow> WebSocketManager \<Rightarrow> WebSocketManager" where
  "clearTimeout t s = s\<lparr>pending := removeAll t (pending s)\<rparr>"

definition attemptReconnect :: "WebSocketManager \<Rightarrow> WebSocketManager" where
  "attemptReconnect s =
     (if paused s then s
      else if reconnectAttempts s \<ge> maxReconnectAttempts then setStatus StError s
      else
        let delay = min (RECONNECT_DELAY_MS * 2 ^ reconnectAttempts s) MAX_RECONNECT_DELAY_MS;
            s1 = s\<lparr>reconnectAttempts := reconnectAttempts s + 1\<rparr>;
            (t, s2) = setTimeout delay s1
        in s2\<lparr>reconnectTimeout := Some t\<rparr>)"

definition connect :: "WebSocketManager \<Rightarrow> WebSocketManager" where
  "connect s =
     (if socketOpen s then s
      else
        let s1 = setStatus StConnecting s
        in if ctorThrows s1 then attemptReconnect (setStatus StError s1)
           else s1\<lparr>socket := Some (length (sockets s1)),
                   sockets := sockets s1 @ [CONNECTING]\<rparr>)"

text \<open>The four handlers that \<open>connect\<close> installs on every socket it creates.\<close>

definition onopen :: "WebSocketManager \<Rightarrow> WebSocketManager" where
  "onopen s =
     (let s1 = setStatus StConnected (s\<lparr>reconnectAttempts := 0\<rparr>)
      in fold (\<lambda>(key, sub). sendSubscribe (sub_type sub) (sub_params sub)) (subscriptions s1) s1)"

definition onclose :: "WebSocketManager \<Rightarrow> WebSocketManager" where
  "onclose s = attemptReconnect (setStatus StDisconnected s)"

definition onerror :: "WebSocketManager \<Rightarrow> WebSocketManager" where
  "onerror s = setStatus StError s"

text \<open>\<^verbatim>\<open>socket.close()\<close>: a connecting or open socket starts closing.\<close>

definition closeSocket :: "nat \<Rightarrow> readyState list \<Rightarrow> readyState list" where
  "closeSocket i socks =
     (if i < length socks \<and> (socks ! i = CONNECTING \<or> socks ! i = OPEN)
      then socks[i := CLOSING] else socks)"

definition disconnect :: "WebSocketManager \<Rightarrow> WebSocketManager" where
  "disconnect s =
     (let s1 = (case reconnectTimeout s of
                  Some t \<Rightarrow> (clearTimeout t s)\<lparr>reconnectTimeout := None\<rparr>
                | None \<Rightarrow> s);
          s2 = (case socket s1 of
                  Some i \<Rightarrow> s1\<lparr>sockets := closeSocket i (sockets s1), socket := None\<rparr>
                | None \<Rightarrow> s1)
      in setStatus StDisconnected s2)"

definition reconnect :: "WebSocketManager \<Rightarrow> WebSocketManager" where
  "reconnect s = connect ((disconnect s)\<lparr>reconnectAttempts := 0\<rparr>)"

subsection \<open>Pause and resume\<close>

definition pause :: "WebSocketManager \<Rightarrow> WebSocketManager" where
  "pause s =
     (if paused s then s
      else
        let s1 = s\<lparr>paused := True\<rparr>;
            s2 = (if socketOpen s1
                  then fold (\<lambda>(key, sub). sendUnsubscribe (sub_type sub) (sub_params sub))
                         (subscriptions s1) s1
                  else s1)
        in case reconnectTimeout s2 of
             Some t \<Rightarrow> (clearTimeout t s2)\<lparr>reconnectTimeout := None\<rparr>
           | None \<Rightarrow> s2)"

definition resume :: "WebSocketManager \<Rightarrow> WebSocketManager" where
  "resume s =
     (if \<not> paused s then s
      else
        let s1 = s\<lparr>paused := False\<rparr>
        in if socketOpen s1
           then fold (\<lambda>(key, sub). sendSubscribe (sub_type sub) (sub_params sub))
                  (subscriptions s1) s1
           else if length (subscriptions s1) > 0 then connect s1
           else s1)"

subsection \<open>Subscribing and unsubscribing\<close>

text \<open>\<^verbatim>\<open>Set.add\<close>, and replacing the value stored under a key of the \<^verbatim>\<open>Map\<close>.\<close>

definition set_add :: "'a \<Rightarrow> 'a list \<Rightarrow> 'a list" where
  "set_add x xs = (if x \<in> set xs then xs else xs @ [x])"

definition map_replace :: "string \<Rightarrow> Subscription \<Rightarrow> (string \<times> Subscription) list
    \<Rightarrow> (string \<times> Subscription) list" where
  "map_replace key sub m = map (\<lambda>(k, v). if k = key then (k, sub) else (k, v)) m"

definition map_delete :: "string \<Rightarrow> (string \<times> Subscription) list
    \<Rightarrow> (string \<times> Subscription) list" where
  "map_delete key m = filter (\<lambda>(k, v). k \<noteq> key) m"

definition subscribe :: "(jsobject \<Rightarrow> string) \<Rightarrow> string \<Rightarrow> jsobject \<Rightarrow> MessageCallback
    \<Rightarrow> WebSocketManager \<Rightarrow> Handle \<times> WebSocketManager" where
  "subscribe stringify type ps callback s =
     (let key = buildKey stringify type ps;
          s1 = (if \<not> socketOpen s then connect s else s);
          s2 = (case map_of (subscriptions s1) key of
                  Some sub \<Rightarrow>
                    s1\<lparr>subscriptions :=
                         map_replace key (sub\<lparr>callbacks := set_add callback (callbacks sub)\<rparr>)
                           (subscriptions s1)\<rparr>
                | None \<Rightarrow>
                    let s3 = s1\<lparr>subscriptions := subscriptions s1 @
                                 [(key, \<lparr>sub_type = type, sub_params = ps,
                                         callbacks = [callback]\<rparr>)]\<rparr>
                    in if socketOpen s3 \<and> \<not> paused s3 then sendSubscribe type ps s3 else s3)
      in (\<lparr>h_key = key, h_callback = callback, h_type = type, h_params = ps\<rparr>, s2))"

definition unsubscribe :: "Handle \<Rightarrow> WebSocketManager \<Rightarrow> WebSocketManager" where
  "unsubscribe h s =
     (case map_of (subscriptions s) (h_key h) of
        None \<Rightarrow> s
      | Some sub \<Rightarrow>
          let cbs = removeAll (h_callback h) (callbacks sub)
          in if length cbs = 0 then
               let s1 = s\<lparr>subscriptions := map_delete (h_key h) (subscriptions s)\<rparr>
               in if socketOpen s1 then sendUnsubscribe (h_type h) (h_params h) s1 else s1
             else s\<lparr>subscriptions :=
                      map_replace (h_key h) (sub\<lparr>callbacks := cbs\<rparr>) (subscriptions s)\<rparr>)"

subsection \<open>Routing inbound messages\<close>

text \<open>\<^verbatim>\<open>dataObj.some((item) => item.coin === sub.params.coin)\<close>, left to right.\<close>

fun some_coin :: "jsval \<Rightarrow> jsval list \<Rightarrow> js_error + bool" where
  "some_coin coin [] = Inr False"
| "some_coin coin (item # items) =
     (case member_coin item of
        Inl e \<Rightarrow> Inl e
      | Inr v \<Rightarrow> if strict_eq v coin then Inr True else some_coin coin items)"

definition matchesChannel :: "Subscription \<Rightarrow> string \<Rightarrow> jsval \<Rightarrow> js_error + bool" where
  "matchesChannel sub chan d =
     (if sub_type sub \<noteq> chan then Inr False
      else if truthy (get_prop (sub_params sub) ''coin'') \<and> is_object d then
        (case d of
           JArr items \<Rightarrow> some_coin (get_prop (sub_params sub) ''coin'') items
         | JObj props \<Rightarrow> Inr (strict_eq (get_prop props ''coin'') (get_prop (sub_params sub) ''coin''))
         | _ \<Rightarrow> Inr True)
      else Inr True)"

text \<open>
  \<^verbatim>\<open>sub.callbacks.forEach((cb) => cb(data))\<close>: the callbacks called, in order, and the
  exception that ended the loop, if any.
\<close>

fun invokeAll :: "(MessageCallback \<Rightarrow> jsval \<Rightarrow> bool) \<Rightarrow> jsval \<Rightarrow> MessageCallback list
    \<Rightarrow> MessageCallback list \<times> js_error option" where
  "invokeAll throws d [] = ([], None)"
| "invokeAll throws d (cb # cbs) =
     (if throws cb d then ([cb], Some (CallbackError cb))
      else let (called, r) = invokeAll throws d cbs in (cb # called, r))"

fun routeSubscriptions :: "(MessageCallback \<Rightarrow> jsval \<Rightarrow> bool) \<Rightarrow> string \<Rightarrow> jsval
    \<Rightarrow> (string \<times> Subscription) list \<Rightarrow> MessageCallback list \<times> js_error option" where
  "routeSubscriptions throws chan d [] = ([], None)"
| "routeSubscriptions throws chan d ((key, sub) # rest) =
     (case matchesChannel sub chan d of
        Inl e \<Rightarrow> ([], Some e)
      | Inr False \<Rightarrow> routeSubscriptions throws chan d rest
      | Inr True \<Rightarrow>
          (case invokeAll throws d (callbacks sub) of
             (called, Some e) \<Rightarrow> (called, Some e)
           | (called, None) \<Rightarrow>
               let (called', r) = routeSubscriptions throws chan d rest
               in (called @ called', r)))"

definition routeMessage :: "(MessageCallback \<Rightarrow> jsval \<Rightarrow> bool) \<Rightarrow> WebSocketMessage
    \<Rightarrow> WebSocketManager \<Rightarrow> WebSocketManager \<times> js_error option" where
  "routeMessage throws message s =
     (let (called, r) = routeSubscriptions throws (channel message) (data message)
                          (subscriptions s)
      in (s\<lparr>delivered := delivered s @ map (\<lambda>cb. (cb, data message)) called\<rparr>, r))"

text \<open>
  The \<^verbatim>\<open>onmessage\<close> handler: \<open>None\<close> is a text that \<^verbatim>\<open>JSON.parse\<close> rejects.  The
  \<^verbatim>\<open>try\<close>/\<^verbatim>\<open>catch\<close> around parsing and routing swallows every exception.
\<close>

definition onmessage :: "(MessageCallback \<Rightarrow> jsval \<Rightarrow> bool) \<Rightarrow> WebSocketMessage option
    \<Rightarrow> WebSocketManager \<Rightarrow> WebSocketManager" where
  "onmessage throws parsed s =
     (case parsed of None \<Rightarrow> s | Some message \<Rightarrow> fst (routeMessage throws message s))"

subsection \<open>Events\<close>

text \<open>
  Calls of the public interface by consumers, and the events of the environment: a
  socket opens, closes, reports an error or receives a message, and a pending timer
  fires.  An event that cannot occur in the current state (a socket that does not exist
  or is already closed, a timer that is not pending, a handle that was never returned)
  leaves the state unchanged.
\<close>

datatype event =
    CallSubscribe string jsobject MessageCallback
  | CallHandle nat
  | CallPause
  | CallResume
  | CallReconnect
  | CallDisconnect
  | CallConnect
  | SocketOpened nat
  | SocketClosed nat
  | SocketErrored nat
  | SocketMessage nat "WebSocketMessage option"
  | TimerFired nat

fun step :: "(jsobject \<Rightarrow> string) \<Rightarrow> (MessageCallback \<Rightarrow> jsval \<Rightarrow> bool) \<Rightarrow> event
    \<Rightarrow> WebSocketManager \<Rightarrow> WebSocketManager" where
  "step stringify throws (CallSubscribe type ps callback) s =
     (let (h, s1) = subscribe stringify type ps callback s
      in s1\<lparr>handles := handles s1 @ [h]\<rparr>)"
| "step stringify throws (CallHandle n) s =
     (if n < length (handles s) then unsubscribe (handles s ! n) s else s)"
| "step stringify throws CallPause s = pause s"
| "step stringify throws CallResume s = resume s"
| "step stringify throws CallReconnect s = reconnect s"
| "step stringify throws CallDisconnect s = disconnect s"
| "step stringify throws CallConnect s = connect s"
| "step stringify throws (SocketOpened i) s =
     (if i < length (sockets s) \<and> sockets s ! i = CONNECTING
      then onopen (s\<lparr>sockets := (sockets s)[i := OPEN]\<rparr>) else s)"
| "step stringify throws (SocketClosed i) s =
     (if i < length (sockets s) \<and> sockets s ! i \<noteq> CLOSED
      then onclose (s\<lparr>sockets := (sockets s)[i := CLOSED]\<rparr>) else s)"
| "step stringify throws (SocketErrored i) s =
     (if i < length (sockets s) \<and> sockets s ! i \<noteq> CLOSED then onerror s else s)"
| "step stringify throws (SocketMessage i parsed) s =
     (if i < length (sockets s) \<and> sockets s ! i = OPEN then onmessage throws parsed s else s)"
| "step stringify throws (TimerFired t) s =
     (if t \<in> set (pending s) then connect (s\<lparr>pending := removeAll t (pending s)\<rparr>) else s)"

definition run :: "(jsobject \<Rightarrow> string) \<Rightarrow> (MessageCallback \<Rightarrow> jsval \<Rightarrow> bool) \<Rightarrow> event list
    \<Rightarrow> WebSocketManager \<Rightarrow> WebSocketManager" where
  "run stringify throws evs s = fold (step stringify throws) evs s"

text \<open>The wire messages with a given method among a list of sent messages.\<close>

definition count_method :: "string \<Rightarrow> (nat \<times> WireMessage) list \<Rightarrow> nat" where
  "count_method m msgs = length (filter (\<lambda>(i, w). wm_method w = m) msgs)"

text \<open>Two calls of \<^verbatim>\<open>subscribe\<close> with the same arguments, one after the other.\<close>

definition subscribe_twice :: "(jsobject \<Rightarrow> string) \<Rightarrow> string \<Rightarrow> jsobject \<Rightarrow> MessageCallback
    \<Rightarrow> WebSocketManager \<Rightarrow> Handle \<times> Handle \<times> WebSocketManager" where
  "subscribe_twice stringify type ps callback s =
     (let (h1, s1) = subscribe stringify type ps callback s;
          (h2, s2) = subscribe stringify type ps callback s1
      in (h1, h2, s2))"

subsection \<open>Reference counting: what is counted\<close>

text \<open>
  \<open>subs_sent\<close> and \<open>unsubs_sent\<close> count the subscribe and unsubscribe messages passed to
  \<^verbatim>\<open>socket.send\<close> so far.  \<open>consumers key s\<close> is the callback set registered under a key
  (empty when there is no entry), and \<open>registered key s\<close> says that the map has an entry
  for the key.  \<open>on_pair t ps\<close> holds of the events that concern one topic: calls of
  \<open>subscribe\<close> with type \<open>t\<close> and with parameters that are equal to \<open>ps\<close> as key-value maps,
  in whatever order their keys were inserted, and invocations of returned handles.
  \<open>topic_inv\<close> is the invariant of such event sequences on an open connection that is
  not paused: every handle returned so far belongs to the topic, the entry exists
  exactly when the consumer set is not empty, and the subscribe messages sent since the
  start (when \<open>a0\<close> subscribe and \<open>u0\<close> unsubscribe messages had been sent) exceed the
  unsubscribe messages by one if the entry exists and by none if it does not.
\<close>

definition subs_sent :: "WebSocketManager \<Rightarrow> nat" where
  "subs_sent s = count_method ''subscribe'' (sent s)"

definition unsubs_sent :: "WebSocketManager \<Rightarrow> nat" where
  "unsubs_sent s = count_method ''unsubscribe'' (sent s)"

definition consumers :: "string \<Rightarrow> WebSocketManager \<Rightarrow> MessageCallback list" where
  "consumers key s = (case map_of (subscriptions s) key of None \<Rightarrow> [] | Some sub \<Rightarrow> callbacks sub)"

definition registered :: "string \<Rightarrow> WebSocketManager \<Rightarrow> bool" where
  "registered key s = (map_of (subscriptions s) key \<noteq> None)"

fun on_pair :: "string \<Rightarrow> jsobject \<Rightarrow> event \<Rightarrow> bool" where
  "on_pair t ps (CallSubscribe t' ps' cb) = (t' = t \<and> distinct (map fst ps') \<and> set ps' = set ps)"
| "on_pair t ps (CallHandle n) = True"
| "on_pair t ps e = False"

fun is_subscribe :: "event \<Rightarrow> bool" where
  "is_subscribe (CallSubscribe t ps cb) = True"
| "is_subscribe e = False"

definition topic_inv :: "string \<Rightarrow> nat \<Rightarrow> nat \<Rightarrow> WebSocketManager \<Rightarrow> bool" where
  "topic_inv key a0 u0 s =
     (socketOpen s \<and> \<not> paused s
      \<and> list_all (\<lambda>h. h_key h = key) (handles s)
      \<and> registered key s = (consumers key s \<noteq> [])
      \<and> subs_sent s + u0 = unsubs_sent s + a0 + (if registered key s then 1 else 0))"

text \<open>
  The reference count in the words of the amended claim, as an automaton over callback
  identities.  Its state is the consumer set of the topic and the callbacks of the
  handles returned so far.  \<open>spec_ref_count\<close> lists the methods of the wire messages it
  emits: a subscribe when a subscribe call finds the consumer set empty, an unsubscribe
  when a handle invocation removes the last callback of a non-empty set, and nothing
  otherwise.  \<open>spec_consumers\<close> is the consumer set it ends with.  \<open>methods_since s0 s\<close>
  lists the methods of the messages the manager sent between the states \<open>s0\<close> and \<open>s\<close>.
\<close>

fun spec_ref_count :: "MessageCallback list \<Rightarrow> MessageCallback list \<Rightarrow> event list \<Rightarrow> string list" where
  "spec_ref_count cs hs [] = []"
| "spec_ref_count cs hs (CallSubscribe t ps cb # evs) =
     (if cs = [] then [''subscribe''] else []) @ spec_ref_count (set_add cb cs) (hs @ [cb]) evs"
| "spec_ref_count cs hs (CallHandle n # evs) =
     (if n < length hs
      then (if cs \<noteq> [] \<and> removeAll (hs ! n) cs = [] then [''unsubscribe''] else [])
             @ spec_ref_count (removeAll (hs ! n) cs) hs evs
      else spec_ref_count cs hs evs)"
| "spec_ref_count cs hs (e # evs) = spec_ref_count cs hs evs"

fun spec_consumers :: "MessageCallback list \<Rightarrow> MessageCallback list \<Rightarrow> event list
    \<Rightarrow> MessageCallback list" where
  "spec_consumers cs hs [] = cs"
| "spec_consumers cs hs (CallSubscribe t ps cb # evs) = spec_consumers (set_add cb cs) (hs @ [cb]) evs"
| "spec_consumers cs hs (CallHandle n # evs) =
     (if n < length hs then spec_consumers (removeAll (hs ! n) cs) hs evs
      else spec_consumers cs hs evs)"
| "spec_consumers cs hs (e # evs) = spec_consumers cs hs evs"

definition methods_since :: "WebSocketManager \<Rightarrow> WebSocketManager \<Rightarrow> string list" where
  "methods_since s0 s = map (\<lambda>(i, w). wm_method w) (drop (length (sent s0)) (sent s))"

subsection \<open>Reconnection: the delay in the words of the specification, and failure sequences\<close>

text \<open>
  \<open>spec_delay k\<close> is the delay the specification gives for the \<open>k\<close>-th scheduled
  reconnect, \<open>k\<close> counted from 1.  \<open>failure_events i t k\<close> is a sequence of \<open>k\<close> consecutive
  failed connection attempts: the current socket \<open>i\<close> reports an error and closes, the
  timer \<open>t\<close> that the close handler set fires and \<open>connect\<close> creates the socket \<open>i + 1\<close>,
  which fails in turn.  \<open>attempting i t a s\<close> describes the states such a sequence starts
  from: socket \<open>i\<close> is the current and the latest socket and is not closed, every earlier
  socket is closed, \<open>t\<close> timers have been set and none is pending, the manager is not
  paused, the constructor does not throw, and the attempt counter is \<open>a\<close>.
  \<open>is_environment\<close> holds of the events that are not calls of the public interface.
\<close>

definition spec_delay :: "nat \<Rightarrow> nat" where
  "spec_delay k = min (RECONNECT_DELAY_MS * 2 ^ (k - 1)) MAX_RECONNECT_DELAY_MS"

fun failure_events :: "nat \<Rightarrow> nat \<Rightarrow> nat \<Rightarrow> event list" where
  "failure_events i t 0 = []"
| "failure_events i t (Suc k) =
     [SocketErrored i, SocketClosed i, TimerFired t] @ failure_events (Suc i) (Suc t) k"

definition attempting :: "nat \<Rightarrow> nat \<Rightarrow> nat \<Rightarrow> WebSocketManager \<Rightarrow> bool" where
  "attempting i t a s =
     (socket s = Some i \<and> length (sockets s) = Suc i \<and> sockets s ! i \<noteq> CLOSED
      \<and> list_all (\<lambda>r. r = CLOSED) (take i (sockets s))
      \<and> length (timers s) = t \<and> pending s = []
      \<and> \<not> paused s \<and> \<not> ctorThrows s \<and> reconnectAttempts s = a)"

fun is_environment :: "event \<Rightarrow> bool" where
  "is_environment (SocketOpened i) = True"
| "is_environment (SocketClosed i) = True"
| "is_environment (SocketErrored i) = True"
| "is_environment (SocketMessage i m) = True"
| "is_environment (TimerFired t) = True"
| "is_environment e = False"

subsection \<open>Routing: the match predicate in the words of the specification, and the delivery plan\<close>

text \<open>
  The coin filter of a subscription is its parameter \<^verbatim>\<open>coin\<close>; the code applies it when
  it is truthy.  A value carries a matching coin field when it is an object whose
  property \<^verbatim>\<open>coin\<close> is strictly equal to the filter.  \<open>spec_matches\<close> is the predicate as
  the specification words it: the types agree and, if there is a filter, the payload or
  some element of an array payload carries a matching coin field.
\<close>

definition coin_filter :: "Subscription \<Rightarrow> jsval" where
  "coin_filter sub = get_prop (sub_params sub) ''coin''"

definition has_coin :: "jsval \<Rightarrow> jsval \<Rightarrow> bool" where
  "has_coin coin v = (case v of JObj props \<Rightarrow> strict_eq (get_prop props ''coin'') coin | _ \<Rightarrow> False)"

definition spec_matches :: "Subscription \<Rightarrow> string \<Rightarrow> jsval \<Rightarrow> bool" where
  "spec_matches sub c d =
     (sub_type sub = c \<and>
      (\<not> truthy (coin_filter sub)
       \<or> (case d of
             JObj props \<Rightarrow> has_coin (coin_filter sub) d
           | JArr items \<Rightarrow> list_ex (has_coin (coin_filter sub)) items
           | _ \<Rightarrow> False)))"

text \<open>
  \<open>match_ok\<close> says that the match test of a subscription returns (it raises only on an
  array payload with a null or undefined element in front of every matching one).
  \<open>matching\<close> selects the subscriptions whose test answers true, and \<open>plan\<close> lists their
  callbacks in the order of the two nested \<^verbatim>\<open>forEach\<close> loops: what \<open>routeMessage\<close> calls
  when nothing throws.
\<close>

definition match_ok :: "Subscription \<Rightarrow> string \<Rightarrow> jsval \<Rightarrow> bool" where
  "match_ok sub c d = (case matchesChannel sub c d of Inl e \<Rightarrow> False | Inr b \<Rightarrow> True)"

definition matching :: "string \<Rightarrow> jsval \<Rightarrow> (string \<times> Subscription) list
    \<Rightarrow> (string \<times> Subscription) list" where
  "matching c d subs = filter (\<lambda>(key, sub). matchesChannel sub c d = Inr True) subs"

definition plan :: "string \<Rightarrow> jsval \<Rightarrow> (string \<times> Subscription) list \<Rightarrow> MessageCallback list" where
  "plan c d subs = concat (map (\<lambda>(key, sub). callbacks sub) (matching c d subs))"

subsection \<open>Concrete states and inputs for closed examples\<close>

text \<open>
  States are built by running events from the initial state.  \<open>two_consumers\<close>: an open
  connection on which the callbacks 0 and 1 are subscribed to the trades of BTC.
  \<open>open_idle\<close>: an open connection without subscriptions.  \<open>same_callback_twice\<close>: callback
  0 subscribed twice to the same topic.  \<open>connecting0\<close>: the first connection attempt is
  under way.  \<open>exhausted0\<close>: that attempt and the ten reconnection attempts after it have
  failed.  \<open>two_sockets_failed\<close>: two consumers subscribed before the first socket
  opened, and both sockets that \<open>connect\<close> created have closed.  \<open>resubscribed\<close>: a topic
  subscribed, released, subscribed again and released again.  \<open>shared_events\<close>: two
  consumers of one topic who wrote the parameters in different orders, then both release.
\<close>

definition btc_trades :: Subscription where
  "btc_trades = \<lparr>sub_type = ''trades'', sub_params = [(''coin'', JStr ''BTC'')], callbacks = [0, 1]\<rparr>"

definition trades_payload :: jsval where
  "trades_payload = JArr [JObj [(''coin'', JStr ''BTC'')], JObj [(''coin'', JStr ''ETH'')]]"

definition never_throws :: "MessageCallback \<Rightarrow> jsval \<Rightarrow> bool" where
  "never_throws cb d = False"

definition first_throws :: "MessageCallback \<Rightarrow> jsval \<Rightarrow> bool" where
  "first_throws cb d = (cb = 0)"

definition two_consumers :: WebSocketManager where
  "two_consumers = run sample_stringify never_throws
     [CallSubscribe ''trades'' [(''coin'', JStr ''BTC'')] 0,
      SocketOpened 0,
      CallSubscribe ''trades'' [(''coin'', JStr ''BTC'')] 1] (init False)"

definition btc_handle :: "MessageCallback \<Rightarrow> Handle" where
  "btc_handle cb = \<lparr>h_key = ''trades:{\"coin\":\"BTC\"}'', h_callback = cb, h_type = ''trades'',
                     h_params = [(''coin'', JStr ''BTC'')]\<rparr>"

definition open_idle :: WebSocketManager where
  "open_idle = run sample_stringify never_throws [CallConnect, SocketOpened 0] (init False)"

definition same_callback_twice :: WebSocketManager where
  "same_callback_twice = run sample_stringify never_throws
     [CallSubscribe ''trades'' [(''coin'', JStr ''BTC'')] 0,
      CallSubscribe ''trades'' [(''coin'', JStr ''BTC'')] 0] open_idle"

definition connecting0 :: WebSocketManager where
  "connecting0 = run sample_stringify never_throws [CallConnect] (init False)"

definition exhausted0 :: WebSocketManager where
  "exhausted0 = run sample_stringify never_throws
      (failure_events 0 0 10 @ [SocketErrored 10, SocketClosed 10]) connecting0"

definition two_sockets_failed :: WebSocketManager where
  "two_sockets_failed = run sample_stringify never_throws
     [CallSubscribe ''trades'' [(''coin'', JStr ''BTC'')] 0,
      CallSubscribe ''l2Book'' [(''coin'', JStr ''BTC'')] 1,
      SocketClosed 0,
      SocketClosed 1] (init False)"

definition candles_a :: jsobject where
  "candles_a = [(''coin'', JStr ''BTC''), (''interval'', JStr ''1m'')]"

definition candles_b :: jsobject where
  "candles_b = [(''interval'', JStr ''1m''), (''coin'', JStr ''BTC'')]"

definition resubscribe_events :: "event list" where
  "resubscribe_events =
     [CallSubscribe ''trades'' [(''coin'', JStr ''BTC'')] 0, CallHandle 0,
      CallSubscribe ''trades'' [(''coin'', JStr ''BTC'')] 1, CallHandle 1]"

definition resubscribed :: WebSocketManager where
  "resubscribed = run sample_stringify never_throws resubscribe_events open_idle"

definition shared_events :: "event list" where
  "shared_events =
     [CallSubscribe ''candle'' candles_a 0, CallSubscribe ''candle'' candles_b 1,
      CallHandle 1, CallHandle 0]"

text \<open>
  \<open>tenth_failure0\<close>: the first connection attempt and nine reconnection attempts have
  failed, ten failed attempts in a row.
\<close>

definition tenth_failure0 :: WebSocketManager where
  "tenth_failure0 = run sample_stringify never_throws
      (failure_events 0 0 9 @ [SocketErrored 9, SocketClosed 9]) connecting0"

subsection \<open>The formulas as the specification words them\<close>

definition clamp :: "int \<Rightarrow> int \<Rightarrow> int \<Rightarrow> int" where
  "clamp x lo hi = (if x < lo then lo else if hi < x then hi else x)"

definition spec_priceDigits :: "real \<Rightarrow> int" where
  "spec_priceDigits currentPrice = \<lfloor>log 10 currentPrice\<rfloor> + 1"

definition spec_bucketDigits :: "real \<Rightarrow> real \<Rightarrow> int" where
  "spec_bucketDigits desiredBucketSize preferredMantissa =
     \<lfloor>log 10 (desiredBucketSize / preferredMantissa)\<rfloor>"

definition spec_nSigFigs :: "real \<Rightarrow> real \<Rightarrow> real \<Rightarrow> int" where
  "spec_nSigFigs currentPrice desiredBucketSize preferredMantissa =
     clamp (spec_priceDigits currentPrice
              - spec_bucketDigits desiredBucketSize preferredMantissa) 2 5"

subsection \<open>Evaluating powers and logarithms of ten\<close>

lemma pow10_powr: "pow10 e = 10 powr (real_of_int e)"
  by (simp add: pow10_def powr_int)

lemma pow10_pos: "0 < pow10 e"
  by (simp add: pow10_def)

lemma floor_log10_eq:
  assumes "0 < x" and "pow10 k \<le> x" and "x < pow10 (k + 1)"
  shows "\<lfloor>log 10 x\<rfloor> = k"
  using assms floor_log_eq_powr_iff [of x 10 k] by (simp add: pow10_powr)

lemma floor_log10_4000: "\<lfloor>log 10 (4000::real)\<rfloor> = 3"
  by (rule floor_log10_eq) (simp_all add: pow10_def)

lemma floor_log10_106000: "\<lfloor>log 10 (106000::real)\<rfloor> = 5"
  by (rule floor_log10_eq) (simp_all add: pow10_def)

lemma floor_log10_100: "\<lfloor>log 10 (100::real)\<rfloor> = 2"
  by (rule floor_log10_eq) (simp_all add: pow10_def)

lemma clamp_max_min: "max 2 (min 5 x) = clamp x 2 5"
  by (simp add: clamp_def max_def min_def)

subsection \<open>Claims about the bucket calculator\<close>

text \<open>
  C2.  For a positive price, a positive desired bucket size and a preferred mantissa of
  1, 2 or 5, \<open>calculateBucketConfig\<close> returns \<open>nSigFigs = clamp (priceDigits - bucketDigits) 2 5\<close>
  with \<open>priceDigits = floor (log10 currentPrice) + 1\<close> and
  \<open>bucketDigits = floor (log10 (desiredBucketSize / preferredMantissa))\<close>, the bucket size
  \<open>preferredMantissa * 10^(priceDigits - nSigFigs)\<close>, and a mantissa (the preferred one)
  exactly when \<open>nSigFigs = 5\<close> and the preferred mantissa is 2 or 5.  When the desired
  bucket size or the price is not positive, both \<open>nSigFigs\<close> and the mantissa are absent.
\<close>

theorem C2_calculateBucketConfig:
  "(0 < currentPrice \<and> 0 < desiredBucketSize \<and> preferredMantissa \<in> {1, 2, 5} \<longrightarrow>
      nSigFigs (calculateBucketConfig currentPrice desiredBucketSize preferredMantissa)
        = Some (spec_nSigFigs currentPrice desiredBucketSize preferredMantissa)
    \<and> actualBucketSize (calculateBucketConfig currentPrice desiredBucketSize preferredMantissa)
        = preferredMantissa * 10 powr real_of_int (spec_priceDigits currentPrice
            - spec_nSigFigs currentPrice desiredBucketSize preferredMantissa)
    \<and> (mantissa (calculateBucketConfig currentPrice desiredBucketSize preferredMantissa) \<noteq> None
        \<longleftrightarrow> spec_nSigFigs currentPrice desiredBucketSize preferredMantissa = 5
            \<and> (preferredMantissa = 2 \<or> preferredMantissa = 5))
    \<and> mantissa (calculateBucketConfig currentPrice desiredBucketSize preferredMantissa)
        \<in> {None, Some preferredMantissa})
   \<and> (desiredBucketSize \<le> 0 \<or> currentPrice \<le> 0 \<longrightarrow>
      nSigFigs (calculateBucketConfig currentPrice desiredBucketSize preferredMantissa) = None
    \<and> mantissa (calculateBucketConfig currentPrice desiredBucketSize preferredMantissa) = None)"
proof -
  have full: "desiredBucketSize \<le> 0 \<or> currentPrice \<le> 0 \<Longrightarrow>
      calculateBucketConfig currentPrice desiredBucketSize preferredMantissa
        = \<lparr>nSigFigs = None, mantissa = None, actualBucketSize = 0\<rparr>"
    by (simp add: calculateBucketConfig_def)
  have pos: "0 < currentPrice \<and> 0 < desiredBucketSize \<Longrightarrow>
      calculateBucketConfig currentPrice desiredBucketSize preferredMantissa
        = \<lparr>nSigFigs = Some (spec_nSigFigs currentPrice desiredBucketSize preferredMantissa),
           mantissa = (if spec_nSigFigs currentPrice desiredBucketSize preferredMantissa = 5
                          \<and> (preferredMantissa = 2 \<or> preferredMantissa = 5)
                       then Some preferredMantissa else None),
           actualBucketSize = preferredMantissa * pow10 (spec_priceDigits currentPrice
              - spec_nSigFigs currentPrice desiredBucketSize preferredMantissa)\<rparr>"
    by (simp add: calculateBucketConfig_def Let_def spec_nSigFigs_def spec_priceDigits_def
        spec_bucketDigits_def clamp_max_min)
  show ?thesis
  proof (intro conjI impI)
    assume h: "0 < currentPrice \<and> 0 < desiredBucketSize \<and> preferredMantissa \<in> {1, 2, 5}"
    then have p: "0 < currentPrice \<and> 0 < desiredBucketSize" by simp
    show "nSigFigs (calculateBucketConfig currentPrice desiredBucketSize preferredMantissa)
        = Some (spec_nSigFigs currentPrice desiredBucketSize preferredMantissa)"
      by (simp add: pos [OF p])
    show "actualBucketSize (calculateBucketConfig currentPrice desiredBucketSize preferredMantissa)
        = preferredMantissa * 10 powr real_of_int (spec_priceDigits currentPrice
            - spec_nSigFigs currentPrice desiredBucketSize preferredMantissa)"
      by (simp only: pos [OF p] pow10_powr BucketConfig.simps)
    show "(mantissa (calculateBucketConfig currentPrice desiredBucketSize preferredMantissa) \<noteq> None)
        = (spec_nSigFigs currentPrice desiredBucketSize preferredMantissa = 5
            \<and> (preferredMantissa = 2 \<or> preferredMantissa = 5))"
      by (simp add: pos [OF p])
    show "mantissa (calculateBucketConfig currentPrice desiredBucketSize preferredMantissa)
        \<in> {None, Some preferredMantissa}"
      by (simp add: pos [OF p])
  next
    assume h: "desiredBucketSize \<le> 0 \<or> currentPrice \<le> 0"
    show "nSigFigs (calculateBucketConfig currentPrice desiredBucketSize preferredMantissa) = None"
      by (simp add: full [OF h])
    show "mantissa (calculateBucketConfig currentPrice desiredBucketSize preferredMantissa) = None"
      by (simp add: full [OF h])
  qed
qed

theorem C2_calculateBucketConfig_witness:
  "(0::real) < 106000 \<and> (0::real) < 100 \<and> (1::real) \<in> {1, 2, 5}
   \<and> nSigFigs (calculateBucketConfig 106000 100 1) = Some 4
   \<and> actualBucketSize (calculateBucketConfig 106000 100 1) = 100
   \<and> mantissa (calculateBucketConfig 106000 100 1) = None
   \<and> nSigFigs (calculateBucketConfig 0 100 1) = None
   \<and> mantissa (calculateBucketConfig 0 100 1) = None"
proof -
  have n: "spec_nSigFigs 106000 100 1 = 4"
    by (simp add: spec_nSigFigs_def spec_priceDigits_def spec_bucketDigits_def clamp_def
        floor_log10_106000 floor_log10_100)
  have p: "spec_priceDigits 106000 = 6"
    by (simp add: spec_priceDigits_def floor_log10_106000)
  have e: "(10::real) powr real_of_int (6 - 4) = 100"
    by (simp add: powr_int)
  show ?thesis
    using C2_calculateBucketConfig [of 106000 100 1] C2_calculateBucketConfig [of 0 100 1]
    by (simp add: n p e)
qed

text \<open>
  The parts of C3 that hold: for a positive price the result has the five values
  \<open>mantissa * 10^(priceDigits - nSigFigs)\<close> of the pairs (5,5), (5,2), (4,1), (3,1), (2,1),
  in this order, and for a price that is not positive it is empty.
\<close>

lemma generateBucketOptions_shape:
  "0 < p \<Longrightarrow> generateBucketOptions p =
     [5 * pow10 (\<lfloor>log 10 p\<rfloor> + 1 - 5), 2 * pow10 (\<lfloor>log 10 p\<rfloor> + 1 - 5),
      1 * pow10 (\<lfloor>log 10 p\<rfloor> + 1 - 4), 1 * pow10 (\<lfloor>log 10 p\<rfloor> + 1 - 3),
      1 * pow10 (\<lfloor>log 10 p\<rfloor> + 1 - 2)]"
  by (simp add: generateBucketOptions_def)

lemma generateBucketOptions_nonpositive: "p \<le> 0 \<Longrightarrow> generateBucketOptions p = []"
  by (simp add: generateBucketOptions_def)

text \<open>
  The order is never ascending: the first value, for the pair (5,5), is five times a
  positive power of ten, and the second, for (5,2), is twice the same power.
\<close>

lemma generateBucketOptions_never_ascending:
  "0 < p \<Longrightarrow> \<not> sorted (generateBucketOptions p)"
  using pow10_pos [of "\<lfloor>log 10 p\<rfloor> - 4"]
  by (simp add: generateBucketOptions_def)

text \<open>
  C3.  The claim says that \<open>generateBucketOptions\<close> returns its five values in ascending
  order, as the function's own documentation does ("sorted ascending").  At the price
  4000 the code returns 0.5, 0.2, 1, 10, 100: the first two values are in descending
  order.
\<close>

theorem C3_generateBucketOptions_4000:
  "generateBucketOptions 4000 = [1/2, 1/5, 1, 10, 100]
   \<and> \<not> sorted (generateBucketOptions 4000)"
  by (simp add: generateBucketOptions_def floor_log10_4000 pow10_def)

section \<open>Topic keys do not depend on the order of the parameters\<close>

lemma sortedParams_eq: "sortedParams ps = map (\<lambda>key. (key, get_prop ps key)) (sort (map fst ps))"
proof -
  have "fold (\<lambda>key acc. acc @ [(key, get_prop ps key)]) ks acc
      = acc @ map (\<lambda>key. (key, get_prop ps key)) ks" for ks acc
    by (induction ks arbitrary: acc) simp_all
  then show ?thesis by (simp add: sortedParams_def)
qed

lemma buildKey_canonical:
  assumes "distinct (map fst p)" and "distinct (map fst q)" and "map_of p = map_of q"
  shows "buildKey js t p = buildKey js t q"
proof -
  from assms have "set (map fst p) = set (map fst q)"
    by (metis dom_map_of_conv_image_fst set_map)
  with assms(1,2) have "sort (map fst p) = sort (map fst q)"
    by (intro sorted_distinct_set_unique) simp_all
  moreover have "get_prop p = get_prop q"
    using assms(3) by (simp add: get_prop_def fun_eq_iff)
  ultimately show ?thesis
    by (simp add: buildKey_def sortedParams_eq)
qed

section \<open>What the operations leave unchanged, and what sending appends\<close>

lemma socketOpen_iff:
  "socketOpen s = (\<exists>i. socket s = Some i \<and> i < length (sockets s) \<and> sockets s ! i = OPEN)"
  by (simp add: socketOpen_def split: option.splits)

lemma socketOpen_sent [simp]: "socketOpen (s\<lparr>sent := x\<rparr>) = socketOpen s"
  by (simp add: socketOpen_iff)

lemma send_open:
  "socketOpen s \<Longrightarrow> socket s = Some i \<Longrightarrow> send m s = s\<lparr>sent := sent s @ [(i, m)]\<rparr>"
  by (simp add: send_def)

lemma send_closed: "\<not> socketOpen s \<Longrightarrow> send m s = s"
  by (simp add: send_def split: option.splits)

lemma fold_send_open:
  "socketOpen s \<Longrightarrow> socket s = Some i \<Longrightarrow>
   fold (\<lambda>(key, sub). send (WireMessage m (sub_type sub) (sub_params sub))) subs s
     = s\<lparr>sent := sent s @ map (\<lambda>(key, sub). (i, WireMessage m (sub_type sub) (sub_params sub))) subs\<rparr>"
proof (induction subs arbitrary: s)
  case Nil
  then show ?case by simp
next
  case (Cons a subs)
  obtain key sub where a: "a = (key, sub)" by (cases a)
  let ?s1 = "s\<lparr>sent := sent s @ [(i, WireMessage m (sub_type sub) (sub_params sub))]\<rparr>"
  have o: "socketOpen ?s1" and k: "socket ?s1 = Some i"
    using Cons.prems by simp_all
  show ?case
    using Cons.IH [OF o k] Cons.prems a by (simp add: send_open)
qed

lemma sendSubscribe_eq: "sendSubscribe t p = send (WireMessage ''subscribe'' t p)"
  by (rule ext) (simp add: sendSubscribe_def)

lemma sendUnsubscribe_eq: "sendUnsubscribe t p = send (WireMessage ''unsubscribe'' t p)"
  by (rule ext) (simp add: sendUnsubscribe_def)

lemma socketOpen_connect [simp]: "socketOpen (connect s) = socketOpen s"
  by (auto simp: connect_def socketOpen_iff setStatus_def attemptReconnect_def setTimeout_def
      Let_def nth_append)

lemma subscriptions_attemptReconnect [simp]:
  "subscriptions (attemptReconnect s) = subscriptions s"
  by (simp add: attemptReconnect_def setStatus_def setTimeout_def Let_def)

lemma sent_attemptReconnect [simp]: "sent (attemptReconnect s) = sent s"
  by (simp add: attemptReconnect_def setStatus_def setTimeout_def Let_def)

lemma paused_attemptReconnect [simp]: "paused (attemptReconnect s) = paused s"
  by (simp add: attemptReconnect_def setStatus_def setTimeout_def Let_def)

lemma subscriptions_connect [simp]: "subscriptions (connect s) = subscriptions s"
  by (simp add: connect_def setStatus_def Let_def)

lemma sent_connect [simp]: "sent (connect s) = sent s"
  by (simp add: connect_def setStatus_def Let_def)

lemma paused_connect [simp]: "paused (connect s) = paused s"
  by (simp add: connect_def setStatus_def Let_def)

lemma map_of_map_replace:
  "map_of (map_replace key sub m) k = (if k = key then map_option (\<lambda>v. sub) (map_of m k) else map_of m k)"
  by (induction m) (auto simp: map_replace_def)

lemma map_of_map_delete:
  "map_of (map_delete key m) k = (if k = key then None else map_of m k)"
  by (induction m) (auto simp: map_delete_def)

lemma map_of_snoc:
  "map_of (m @ [(key, v)]) k = (case map_of m k of Some x \<Rightarrow> Some x | None \<Rightarrow> if k = key then Some v else None)"
  by (induction m) auto

lemma fst_subscribe:
  "fst (subscribe js t ps cb s) = \<lparr>h_key = buildKey js t ps, h_callback = cb, h_type = t, h_params = ps\<rparr>"
  by (simp add: subscribe_def Let_def)

lemma subscriptions_subscribe:
  "subscriptions (snd (subscribe js t ps cb s)) =
     (case map_of (subscriptions s) (buildKey js t ps) of
        None \<Rightarrow> subscriptions s @ [(buildKey js t ps, \<lparr>sub_type = t, sub_params = ps, callbacks = [cb]\<rparr>)]
      | Some sub \<Rightarrow> map_replace (buildKey js t ps) (sub\<lparr>callbacks := set_add cb (callbacks sub)\<rparr>)
                     (subscriptions s))"
  by (simp add: subscribe_def Let_def sendSubscribe_def send_def split: option.splits)

lemma subscriptions_send [simp]: "subscriptions (send m s) = subscriptions s"
  by (simp add: send_def split: option.splits)

lemma socketOpen_subscriptions [simp]: "socketOpen (s\<lparr>subscriptions := x\<rparr>) = socketOpen s"
  by (simp add: socketOpen_iff)

lemma unsubscribe_last:
  assumes "map_of (subscriptions s) (h_key h) = Some sub"
    and "set (callbacks sub) \<subseteq> {h_callback h}"
  shows "unsubscribe h s =
     (let s1 = s\<lparr>subscriptions := map_delete (h_key h) (subscriptions s)\<rparr>
      in if socketOpen s then sendUnsubscribe (h_type h) (h_params h) s1 else s1)"
proof -
  have "removeAll (h_callback h) (callbacks sub) = []"
    using assms(2) by (induction "callbacks sub") (auto simp: removeAll_filter_not_eq filter_empty_conv)
  then show ?thesis
    using assms(1) by (simp add: unsubscribe_def Let_def)
qed

lemma count_list_set_add:
  "distinct xs \<Longrightarrow> count_list (set_add x xs) x = 1"
  by (induction xs) (auto simp: set_add_def count_list_0_iff)

lemma set_add_idem: "set_add x (set_add x xs) = set_add x xs"
  by (simp add: set_add_def)

lemma subscribe_twice_eq:
  "subscribe_twice js t ps cb s =
     (fst (subscribe js t ps cb s),
      fst (subscribe js t ps cb (snd (subscribe js t ps cb s))),
      snd (subscribe js t ps cb (snd (subscribe js t ps cb s))))"
  by (simp add: subscribe_twice_def Let_def split: prod.splits)

lemma subscribe_twice_entry:
  "map_of (subscriptions (snd (subscribe js t ps cb (snd (subscribe js t ps cb s))))) (buildKey js t ps) =
     (case map_of (subscriptions s) (buildKey js t ps) of
        None \<Rightarrow> Some \<lparr>sub_type = t, sub_params = ps, callbacks = [cb]\<rparr>
      | Some sub \<Rightarrow> Some (sub\<lparr>callbacks := set_add cb (callbacks sub)\<rparr>))"
proof (cases "map_of (subscriptions s) (buildKey js t ps)")
  case None
  then have 1: "map_of (subscriptions (snd (subscribe js t ps cb s))) (buildKey js t ps)
      = Some \<lparr>sub_type = t, sub_params = ps, callbacks = [cb]\<rparr>"
    by (simp add: subscriptions_subscribe map_of_snoc del: map_of_append)
  show ?thesis
    by (simp add: subscriptions_subscribe [of js t ps cb "snd (subscribe js t ps cb s)"] 1 None
        map_of_map_replace set_add_def)
next
  case (Some sub)
  then have 1: "map_of (subscriptions (snd (subscribe js t ps cb s))) (buildKey js t ps)
      = Some (sub\<lparr>callbacks := set_add cb (callbacks sub)\<rparr>)"
    by (simp add: subscriptions_subscribe map_of_map_replace)
  show ?thesis
    by (simp add: subscriptions_subscribe [of js t ps cb "snd (subscribe js t ps cb s)"] 1 Some
        map_of_map_replace set_add_idem)
qed

lemma sent_unsubscribe_last:
  assumes "map_of (subscriptions s) (h_key h) = Some sub"
    and "set (callbacks sub) \<subseteq> {h_callback h}"
  shows "map_of (subscriptions (unsubscribe h s)) (h_key h) = None"
    and "socketOpen s \<Longrightarrow> socket s = Some i \<Longrightarrow>
           sent (unsubscribe h s) = sent s @ [(i, WireMessage ''unsubscribe'' (h_type h) (h_params h))]"
    and "\<not> socketOpen s \<Longrightarrow> sent (unsubscribe h s) = sent s"
proof -
  let ?s1 = "s\<lparr>subscriptions := map_delete (h_key h) (subscriptions s)\<rparr>"
  have u: "unsubscribe h s = (if socketOpen s then sendUnsubscribe (h_type h) (h_params h) ?s1 else ?s1)"
    using unsubscribe_last [OF assms] by (simp add: Let_def)
  show "map_of (subscriptions (unsubscribe h s)) (h_key h) = None"
    by (simp add: u sendUnsubscribe_def map_of_map_delete)
  show "sent (unsubscribe h s) = sent s @ [(i, WireMessage ''unsubscribe'' (h_type h) (h_params h))]"
    if "socketOpen s" "socket s = Some i"
  proof -
    have "socketOpen ?s1" "socket ?s1 = Some i" using that by simp_all
    then show ?thesis using that by (simp add: u sendUnsubscribe_def send_open)
  qed
  show "sent (unsubscribe h s) = sent s" if "\<not> socketOpen s"
    using that by (simp add: u)
qed

section \<open>Routing of inbound messages\<close>

lemma member_coin_has_coin:
  "truthy coin \<Longrightarrow> (\<exists>v. member_coin item = Inr v \<and> strict_eq v coin) = has_coin coin item"
  by (cases item; cases coin) (simp_all add: has_coin_def)

lemma member_coin_Inl: "(member_coin item = Inl e) = (e = TypeError \<and> (item = JNull \<or> item = JUndefined))"
  by (cases item) auto

lemma some_coin_True_iff:
  "truthy coin \<Longrightarrow> (some_coin coin items = Inr True) =
     (\<exists>ys item zs. items = ys @ item # zs \<and> JNull \<notin> set ys \<and> JUndefined \<notin> set ys
        \<and> has_coin coin item)"
proof (induction items)
  case Nil
  then show ?case by simp
next
  case (Cons a items)
  show ?case
  proof (cases "member_coin a")
    case (Inl e)
    then have a: "a = JNull \<or> a = JUndefined" by (simp add: member_coin_Inl)
    then have "\<not> has_coin coin a" by (auto simp: has_coin_def)
    with a Inl show ?thesis
      by (auto simp: Cons_eq_append_conv)
  next
    case (Inr v)
    then have na: "a \<noteq> JNull \<and> a \<noteq> JUndefined" by (cases a) auto
    show ?thesis
    proof (cases "strict_eq v coin")
      case True
      with Inr Cons.prems have "has_coin coin a"
        using member_coin_has_coin [of coin a] by auto
      then have "\<exists>ys item zs. a # items = ys @ item # zs \<and> JNull \<notin> set ys
          \<and> JUndefined \<notin> set ys \<and> has_coin coin item"
        by (intro exI [of _ "[]"] exI [of _ a] exI [of _ items]) simp
      with Inr True show ?thesis by simp
    next
      case False
      with Inr Cons.prems have nh: "\<not> has_coin coin a"
        using member_coin_has_coin [of coin a] by auto
      have "some_coin coin (a # items) = some_coin coin items"
        using Inr False by simp
      moreover have "(\<exists>ys item zs. a # items = ys @ item # zs \<and> JNull \<notin> set ys
          \<and> JUndefined \<notin> set ys \<and> has_coin coin item)
         = (\<exists>ys item zs. items = ys @ item # zs \<and> JNull \<notin> set ys
          \<and> JUndefined \<notin> set ys \<and> has_coin coin item)"
      proof
        assume "\<exists>ys item zs. a # items = ys @ item # zs \<and> JNull \<notin> set ys
          \<and> JUndefined \<notin> set ys \<and> has_coin coin item"
        then obtain ys item zs where h: "a # items = ys @ item # zs" "JNull \<notin> set ys"
          "JUndefined \<notin> set ys" "has_coin coin item" by blast
        from h(1) h(4) nh obtain ys' where "ys = a # ys'" "items = ys' @ item # zs"
          by (cases ys) auto
        with h show "\<exists>ys item zs. items = ys @ item # zs \<and> JNull \<notin> set ys
          \<and> JUndefined \<notin> set ys \<and> has_coin coin item" by auto
      next
        assume "\<exists>ys item zs. items = ys @ item # zs \<and> JNull \<notin> set ys
          \<and> JUndefined \<notin> set ys \<and> has_coin coin item"
        then obtain ys item zs where h: "items = ys @ item # zs" "JNull \<notin> set ys"
          "JUndefined \<notin> set ys" "has_coin coin item" by blast
        then have "a # items = (a # ys) @ item # zs \<and> JNull \<notin> set (a # ys)
          \<and> JUndefined \<notin> set (a # ys) \<and> has_coin coin item"
          using na by auto
        then show "\<exists>ys item zs. a # items = ys @ item # zs \<and> JNull \<notin> set ys
          \<and> JUndefined \<notin> set ys \<and> has_coin coin item" by blast
      qed
      ultimately show ?thesis using Cons.IH [OF Cons.prems] by simp
    qed
  qed
qed

lemma matchesChannel_primitive:
  "\<not> is_object d \<Longrightarrow> matchesChannel sub c d = Inr (sub_type sub = c)"
  by (simp add: matchesChannel_def)

lemma matchesChannel_True_iff:
  "(matchesChannel sub c d = Inr True) =
     (sub_type sub = c \<and>
      (\<not> truthy (coin_filter sub) \<or> \<not> is_object d
       \<or> (\<exists>props. d = JObj props \<and> has_coin (coin_filter sub) d)
       \<or> (\<exists>ys item zs. d = JArr (ys @ item # zs) \<and> JNull \<notin> set ys \<and> JUndefined \<notin> set ys
             \<and> has_coin (coin_filter sub) item)))"
proof (cases "sub_type sub = c \<and> truthy (coin_filter sub) \<and> is_object d")
  case False
  then show ?thesis
    by (auto simp: matchesChannel_def coin_filter_def)
next
  case True
  then show ?thesis
    by (cases d) (auto simp: matchesChannel_def coin_filter_def [symmetric] has_coin_def
        some_coin_True_iff)
qed

lemma invokeAll_no_throw:
  "\<forall>cb\<in>set cbs. \<not> throws cb d \<Longrightarrow> invokeAll throws d cbs = (cbs, None)"
  by (induction cbs) auto

lemma invokeAll_eq:
  "invokeAll throws d cbs =
     (takeWhile (\<lambda>cb. \<not> throws cb d) cbs @ take 1 (dropWhile (\<lambda>cb. \<not> throws cb d) cbs),
      case dropWhile (\<lambda>cb. \<not> throws cb d) cbs of [] \<Rightarrow> None | cb # rest \<Rightarrow> Some (CallbackError cb))"
  by (induction cbs) (auto split: prod.splits)

lemma routeSubscriptions_eq:
  "\<forall>(key, sub)\<in>set subs. match_ok sub c d \<Longrightarrow>
   routeSubscriptions throws c d subs =
     (takeWhile (\<lambda>cb. \<not> throws cb d) (plan c d subs)
        @ take 1 (dropWhile (\<lambda>cb. \<not> throws cb d) (plan c d subs)),
      case dropWhile (\<lambda>cb. \<not> throws cb d) (plan c d subs) of
        [] \<Rightarrow> None | cb # rest \<Rightarrow> Some (CallbackError cb))"
proof (induction subs)
  case Nil
  then show ?case by (simp add: plan_def matching_def)
next
  case (Cons a subs)
  obtain key sub where a: "a = (key, sub)" by (cases a)
  from Cons.prems a have ok: "match_ok sub c d" and rest: "\<forall>(key, sub)\<in>set subs. match_ok sub c d"
    by auto
  from ok obtain b where b: "matchesChannel sub c d = Inr b"
    by (auto simp: match_ok_def split: sum.splits)
  show ?case
  proof (cases b)
    case False
    with a b Cons.IH [OF rest] show ?thesis
      by (simp add: plan_def matching_def)
  next
    case True
    have p: "plan c d (a # subs) = callbacks sub @ plan c d subs"
      using a b True by (simp add: plan_def matching_def)
    show ?thesis
    proof (cases "\<forall>cb\<in>set (callbacks sub). \<not> throws cb d")
      case all: True
      then show ?thesis
        using a b True Cons.IH [OF rest] p
        by (simp add: invokeAll_no_throw takeWhile_append2 dropWhile_append2
            takeWhile_append dropWhile_append)
    next
      case some: False
      then have ne: "dropWhile (\<lambda>cb. \<not> throws cb d) (callbacks sub) \<noteq> []"
        by (simp add: dropWhile_eq_Nil_conv)
      then obtain x xs where dw: "dropWhile (\<lambda>cb. \<not> throws cb d) (callbacks sub) = x # xs"
        by (cases "dropWhile (\<lambda>cb. \<not> throws cb d) (callbacks sub)") auto
      from some obtain y where y: "y \<in> set (callbacks sub)" "\<not> \<not> throws y d" by auto
      have tw: "takeWhile (\<lambda>cb. \<not> throws cb d) (callbacks sub @ plan c d subs)
          = takeWhile (\<lambda>cb. \<not> throws cb d) (callbacks sub)"
        using y by (rule takeWhile_append1)
      have dw2: "dropWhile (\<lambda>cb. \<not> throws cb d) (callbacks sub @ plan c d subs)
          = x # xs @ plan c d subs"
        using dropWhile_append1 [of y "callbacks sub" "\<lambda>cb. \<not> throws cb d" "plan c d subs"] y dw
        by simp
      show ?thesis
        using a b True p tw dw dw2 by (simp add: invokeAll_eq)
    qed
  qed
qed


lemma routeMessage_eq:
  assumes "\<forall>(key, sub)\<in>set (subscriptions s). match_ok sub (channel m) (data m)"
  shows "routeMessage throws m s =
     (s\<lparr>delivered := delivered s @ map (\<lambda>cb. (cb, data m))
          (takeWhile (\<lambda>cb. \<not> throws cb (data m)) (plan (channel m) (data m) (subscriptions s))
           @ take 1 (dropWhile (\<lambda>cb. \<not> throws cb (data m))
                       (plan (channel m) (data m) (subscriptions s))))\<rparr>,
      case dropWhile (\<lambda>cb. \<not> throws cb (data m)) (plan (channel m) (data m) (subscriptions s)) of
        [] \<Rightarrow> None | cb # rest \<Rightarrow> Some (CallbackError cb))"
  by (simp only: routeMessage_def routeSubscriptions_eq [OF assms] Let_def split_conv)

lemma match_ok_primitive: "\<not> is_object d \<Longrightarrow> match_ok sub c d"
  by (simp add: match_ok_def matchesChannel_primitive)

lemma two_consumers_eq:
  "two_consumers =
     \<lparr>socket = Some 0,
      subscriptions = [(''trades:{\"coin\":\"BTC\"}'', btc_trades)],
      reconnectAttempts = 0, reconnectTimeout = None, status = StConnected, paused = False,
      ctorThrows = False, sockets = [OPEN],
      sent = [(0, WireMessage ''subscribe'' ''trades'' [(''coin'', JStr ''BTC'')])],
      timers = [], pending = [], delivered = [],
      handles = [\<lparr>h_key = ''trades:{\"coin\":\"BTC\"}'', h_callback = 0, h_type = ''trades'',
                    h_params = [(''coin'', JStr ''BTC'')]\<rparr>,
                 \<lparr>h_key = ''trades:{\"coin\":\"BTC\"}'', h_callback = 1, h_type = ''trades'',
                    h_params = [(''coin'', JStr ''BTC'')]\<rparr>]\<rparr>"
  by (simp add: two_consumers_def run_def init_def subscribe_def buildKey_def sortedParams_def
      get_prop_def sample_stringify_def socketOpen_def connect_def setStatus_def Let_def
      map_replace_def set_add_def onopen_def sendSubscribe_def send_def btc_trades_def)

lemma open_idle_eq:
  "open_idle =
     \<lparr>socket = Some 0, subscriptions = [], reconnectAttempts = 0, reconnectTimeout = None,
      status = StConnected, paused = False, ctorThrows = False, sockets = [OPEN],
      sent = [], timers = [], pending = [], delivered = [], handles = []\<rparr>"
  by (simp add: open_idle_def run_def init_def socketOpen_def connect_def setStatus_def Let_def
      onopen_def)

lemma btc_key: "buildKey sample_stringify ''trades'' [(''coin'', JStr ''BTC'')] = ''trades:{\"coin\":\"BTC\"}''"
  by (simp add: buildKey_def sortedParams_def get_prop_def sample_stringify_def)

lemma same_callback_twice_eq:
  "same_callback_twice =
     \<lparr>socket = Some 0,
      subscriptions = [(''trades:{\"coin\":\"BTC\"}'',
         \<lparr>sub_type = ''trades'', sub_params = [(''coin'', JStr ''BTC'')], callbacks = [0]\<rparr>)],
      reconnectAttempts = 0, reconnectTimeout = None, status = StConnected, paused = False,
      ctorThrows = False, sockets = [OPEN],
      sent = [(0, WireMessage ''subscribe'' ''trades'' [(''coin'', JStr ''BTC'')])],
      timers = [], pending = [], delivered = [],
      handles = [btc_handle 0, btc_handle 0]\<rparr>"
  by (simp add: same_callback_twice_def open_idle_eq run_def subscribe_def btc_key socketOpen_def
      Let_def map_replace_def set_add_def sendSubscribe_def send_def btc_handle_def)

lemma subscribe_twice_open_idle:
  "subscribe_twice sample_stringify ''trades'' [(''coin'', JStr ''BTC'')] 0 open_idle
     = (btc_handle 0, btc_handle 0, same_callback_twice\<lparr>handles := []\<rparr>)"
  by (simp add: same_callback_twice_eq subscribe_twice_def open_idle_eq subscribe_def btc_key
      socketOpen_def Let_def map_replace_def set_add_def sendSubscribe_def send_def btc_handle_def)

lemma routeMessage_no_throw:
  assumes "\<forall>(key, sub)\<in>set (subscriptions s).
             match_ok sub c d \<and> (\<forall>cb\<in>set (callbacks sub). \<not> throws cb d)"
  shows "routeMessage throws \<lparr>channel = c, data = d\<rparr> s =
           (s\<lparr>delivered := delivered s @ map (\<lambda>cb. (cb, d)) (plan c d (subscriptions s))\<rparr>, None)"
proof -
  from assms have ok: "\<forall>(key, sub)\<in>set (subscriptions s).
      match_ok sub (channel \<lparr>channel = c, data = d\<rparr>) (data \<lparr>channel = c, data = d\<rparr>)"
    by auto
  from assms have "\<forall>cb\<in>set (plan c d (subscriptions s)). \<not> throws cb d"
    by (auto simp: plan_def matching_def)
  then have tw: "takeWhile (\<lambda>cb. \<not> throws cb d) (plan c d (subscriptions s))
        = plan c d (subscriptions s)"
    and dw: "dropWhile (\<lambda>cb. \<not> throws cb d) (plan c d (subscriptions s)) = []"
    by simp_all
  show ?thesis
    using routeMessage_eq [OF ok, of throws] tw dw by simp
qed

subsection \<open>C7: the match predicate\<close>

text \<open>
  C7, as stated, fails.  The claim says that a subscription receives a payload exactly
  when the types agree and it has no coin filter, or the payload is an object with the
  filter's coin, or an array with such an element.  The subscription \<open>btc_trades\<close>
  (filter \<^verbatim>\<open>coin = "BTC"\<close>) receives the string payload \<^verbatim>\<open>"ping"\<close> on its channel, which
  satisfies none of the three conditions.
\<close>

theorem C7_counterexample:
  "matchesChannel btc_trades ''trades'' (JStr ''ping'') = Inr True
   \<and> \<not> spec_matches btc_trades ''trades'' (JStr ''ping'')
   \<and> delivered (step sample_stringify never_throws
        (SocketMessage 0 (Some \<lparr>channel = ''trades'', data = JStr ''ping''\<rparr>)) two_consumers)
      = [(0, JStr ''ping''), (1, JStr ''ping'')]"
  by (simp add: two_consumers_eq matchesChannel_def spec_matches_def coin_filter_def btc_trades_def
      get_prop_def onmessage_def routeMessage_def never_throws_def)

text \<open>
  C7, amended.  \<open>matchesChannel\<close> answers true exactly when the subscription's type is
  the channel and one of these holds: the subscription has no truthy coin parameter;
  the payload is neither an object nor an array (it is null or a primitive); the payload
  is an object whose coin field is strictly equal to the filter; the payload is an array
  with an element whose coin field is strictly equal to the filter and with no null or
  undefined element before it.  When no match test raises and no callback throws, the
  message is delivered whole to every callback of every matching subscription, in
  registration order, and to no other callback.
\<close>

theorem C7_matches_and_delivery:
  "((matchesChannel sub c d = Inr True) =
     (sub_type sub = c \<and>
      (\<not> truthy (coin_filter sub) \<or> \<not> is_object d
       \<or> (\<exists>props. d = JObj props \<and> has_coin (coin_filter sub) d)
       \<or> (\<exists>ys item zs. d = JArr (ys @ item # zs) \<and> JNull \<notin> set ys \<and> JUndefined \<notin> set ys
             \<and> has_coin (coin_filter sub) item))))
   \<and> ((\<forall>(key, sub')\<in>set (subscriptions s).
          match_ok sub' c d \<and> (\<forall>cb\<in>set (callbacks sub'). \<not> throws cb d)) \<longrightarrow>
       routeMessage throws \<lparr>channel = c, data = d\<rparr> s =
         (s\<lparr>delivered := delivered s @ map (\<lambda>cb. (cb, d)) (plan c d (subscriptions s))\<rparr>, None))"
  using matchesChannel_True_iff [of sub c d] routeMessage_no_throw [of s c d throws]
  by blast

lemma btc_trades_matches_payload: "matchesChannel btc_trades ''trades'' trades_payload = Inr True"
  by (simp add: matchesChannel_def btc_trades_def trades_payload_def get_prop_def)

lemma two_consumers_plan: "plan ''trades'' trades_payload (subscriptions two_consumers) = [0, 1]"
  by (simp add: two_consumers_eq plan_def matching_def btc_trades_matches_payload)
     (simp add: btc_trades_def)

theorem C7_matches_and_delivery_witness:
  "list_all (\<lambda>(key, sub'). match_ok sub' ''trades'' trades_payload
        \<and> list_all (\<lambda>cb. \<not> never_throws cb trades_payload) (callbacks sub'))
      (subscriptions two_consumers)
   \<and> delivered (fst (routeMessage never_throws
        \<lparr>channel = ''trades'', data = trades_payload\<rparr> two_consumers))
      = [(0, trades_payload), (1, trades_payload)]"
proof -
  have h: "\<forall>(key, sub')\<in>set (subscriptions two_consumers).
      match_ok sub' ''trades'' trades_payload
      \<and> (\<forall>cb\<in>set (callbacks sub'). \<not> never_throws cb trades_payload)"
    by (simp add: two_consumers_eq match_ok_def btc_trades_matches_payload never_throws_def)
  from C7_matches_and_delivery [of btc_trades "''trades''" trades_payload two_consumers never_throws] h
  have "routeMessage never_throws \<lparr>channel = ''trades'', data = trades_payload\<rparr> two_consumers =
      (two_consumers\<lparr>delivered := delivered two_consumers
          @ map (\<lambda>cb. (cb, trades_payload))
              (plan ''trades'' trades_payload (subscriptions two_consumers))\<rparr>, None)"
    by blast
  then show ?thesis
    using h by (simp add: two_consumers_plan list_all_iff) (simp add: two_consumers_eq)
qed

subsection \<open>C9: payloads that are not objects pass the coin filter\<close>

text \<open>
  C9.  For a subscription with a (truthy) coin filter and a message on its channel whose
  payload is not an object or array (a string, a number, a boolean, null), the match
  predicate succeeds; and when the subscription is registered and no callback throws,
  the payload is delivered to each of its callbacks.
\<close>

theorem C9_primitive_payload_passes_filter:
  "truthy (coin_filter sub) \<and> sub_type sub = c \<and> \<not> is_object d \<longrightarrow>
     matchesChannel sub c d = Inr True
     \<and> ((key, sub) \<in> set (subscriptions s)
          \<and> (\<forall>(k, sub')\<in>set (subscriptions s). \<forall>cb\<in>set (callbacks sub'). \<not> throws cb d) \<longrightarrow>
        (\<forall>cb\<in>set (callbacks sub).
           (cb, d) \<in> set (delivered (fst (routeMessage throws \<lparr>channel = c, data = d\<rparr> s)))))"
proof (intro impI conjI ballI)
  assume h: "truthy (coin_filter sub) \<and> sub_type sub = c \<and> \<not> is_object d"
  then show m: "matchesChannel sub c d = Inr True"
    by (simp add: matchesChannel_primitive)
  fix cb
  assume r: "(key, sub) \<in> set (subscriptions s)
          \<and> (\<forall>(k, sub')\<in>set (subscriptions s). \<forall>cb\<in>set (callbacks sub'). \<not> throws cb d)"
    and cb: "cb \<in> set (callbacks sub)"
  from h r have ok: "\<forall>(key, sub)\<in>set (subscriptions s).
             match_ok sub c d \<and> (\<forall>cb\<in>set (callbacks sub). \<not> throws cb d)"
    by (auto simp: match_ok_primitive)
  from r m have "(key, sub) \<in> set (matching c d (subscriptions s))"
    by (simp add: matching_def)
  with cb have "cb \<in> set (plan c d (subscriptions s))"
    by (auto simp: plan_def)
  then show "(cb, d) \<in> set (delivered (fst (routeMessage throws \<lparr>channel = c, data = d\<rparr> s)))"
    using routeMessage_no_throw [of s c d throws] ok by simp
qed

theorem C9_primitive_payload_passes_filter_witness:
  "truthy (coin_filter btc_trades) \<and> sub_type btc_trades = ''trades'' \<and> \<not> is_object (JNum 7)
   \<and> matchesChannel btc_trades ''trades'' (JNum 7) = Inr True
   \<and> (''trades:{\"coin\":\"BTC\"}'', btc_trades) \<in> set (subscriptions two_consumers)
   \<and> list_all (\<lambda>(k, sub'). list_all (\<lambda>cb. \<not> never_throws cb (JNum 7)) (callbacks sub'))
         (subscriptions two_consumers)
   \<and> callbacks btc_trades = [0, 1]
   \<and> (0, JNum 7) \<in> set (delivered (fst (routeMessage never_throws
            \<lparr>channel = ''trades'', data = JNum 7\<rparr> two_consumers)))
   \<and> (1, JNum 7) \<in> set (delivered (fst (routeMessage never_throws
            \<lparr>channel = ''trades'', data = JNum 7\<rparr> two_consumers)))"
proof -
  have h1: "truthy (coin_filter btc_trades) \<and> sub_type btc_trades = ''trades''
      \<and> \<not> is_object (JNum 7)"
    by (simp add: coin_filter_def btc_trades_def get_prop_def)
  have h2: "(''trades:{\"coin\":\"BTC\"}'', btc_trades) \<in> set (subscriptions two_consumers)
      \<and> (\<forall>(k, sub')\<in>set (subscriptions two_consumers).
            \<forall>cb\<in>set (callbacks sub'). \<not> never_throws cb (JNum 7))"
    by (simp add: two_consumers_eq never_throws_def)
  have c: "callbacks btc_trades = [0, 1]"
    by (simp add: btc_trades_def)
  from C9_primitive_payload_passes_filter [of btc_trades "''trades''" "JNum 7"
        "''trades:{\"coin\":\"BTC\"}''" two_consumers never_throws] h1 h2
  have "matchesChannel btc_trades ''trades'' (JNum 7) = Inr True
      \<and> (\<forall>cb\<in>set (callbacks btc_trades).
         (cb, JNum 7) \<in> set (delivered (fst (routeMessage never_throws
            \<lparr>channel = ''trades'', data = JNum 7\<rparr> two_consumers))))"
    by blast
  then show ?thesis
    using h1 h2 by (simp add: c list_all_iff)
qed

subsection \<open>C5: an exception thrown by a callback\<close>

text \<open>
  C5, as stated, fails.  The claim says that a callback that throws does not prevent
  delivery to the remaining callbacks.  In the state \<open>two_consumers\<close> the subscription
  \<open>btc_trades\<close> has the callbacks 0 and 1 and matches the payload; when callback 0
  throws, callback 1 is not called.
\<close>

theorem C5_counterexample:
  "matchesChannel btc_trades ''trades'' trades_payload = Inr True
   \<and> callbacks btc_trades = [0, 1]
   \<and> delivered (step sample_stringify first_throws
        (SocketMessage 0 (Some \<lparr>channel = ''trades'', data = trades_payload\<rparr>)) two_consumers)
      = [(0, trades_payload)]"
  by (simp add: two_consumers_eq matchesChannel_def btc_trades_def trades_payload_def
      get_prop_def onmessage_def routeMessage_def first_throws_def)

text \<open>
  C5, amended.  An exception thrown by a callback ends the routing of that message: the
  callbacks before it in iteration order (subscriptions in registration order, the
  callbacks of each in insertion order) and the throwing callback itself are called, and
  no later callback of the same or of another matching topic is.  The exception is
  caught by the \<^verbatim>\<open>onmessage\<close> handler, which leaves every field of the manager as it was,
  so the connection stays up and later messages are routed as usual.  (Stated for
  messages on which no match test raises.)
\<close>

theorem C5_exception_ends_routing:
  "(\<forall>(key, sub)\<in>set (subscriptions s). match_ok sub (channel m) (data m)) \<longrightarrow>
     onmessage throws (Some m) s =
       s\<lparr>delivered := delivered s @ map (\<lambda>cb. (cb, data m))
           (takeWhile (\<lambda>cb. \<not> throws cb (data m)) (plan (channel m) (data m) (subscriptions s))
            @ take 1 (dropWhile (\<lambda>cb. \<not> throws cb (data m))
                        (plan (channel m) (data m) (subscriptions s))))\<rparr>"
  by (simp add: onmessage_def routeMessage_eq)

theorem C5_exception_ends_routing_witness:
  "list_all (\<lambda>(key, sub). match_ok sub ''trades'' trades_payload) (subscriptions two_consumers)
   \<and> onmessage first_throws (Some \<lparr>channel = ''trades'', data = trades_payload\<rparr>) two_consumers
       = two_consumers\<lparr>delivered := [(0, trades_payload)]\<rparr>"
proof -
  have h: "\<forall>(key, sub)\<in>set (subscriptions two_consumers). match_ok sub ''trades'' trades_payload"
    by (simp add: two_consumers_eq match_ok_def btc_trades_matches_payload)
  have d: "delivered two_consumers = []"
    by (simp add: two_consumers_eq)
  show ?thesis
    using C5_exception_ends_routing [of two_consumers
        "\<lparr>channel = ''trades'', data = trades_payload\<rparr>" first_throws] h
    by (simp add: two_consumers_plan first_throws_def d list_all_iff)
qed

section \<open>Pause and resume, and callback identity\<close>

text \<open>
  C8.  In a connected state that is not paused, \<open>pause\<close> sends one unsubscribe message
  per registered topic, and \<open>resume\<close> right after it sends one subscribe message per
  registered topic, built from the stored type and parameters, in registration order;
  the subscription map with all its consumer sets is the same after the two calls as
  before them.  \<open>pause\<close> on a paused manager and \<open>resume\<close> on a manager that is not paused
  change nothing.
\<close>

theorem C8_pause_resume:
  "(socketOpen s \<and> \<not> paused s \<and> socket s = Some i \<longrightarrow>
      pause s = s\<lparr>paused := True,
                   sent := sent s @ map (\<lambda>(key, sub).
                      (i, WireMessage ''unsubscribe'' (sub_type sub) (sub_params sub))) (subscriptions s),
                   pending := (case reconnectTimeout s of
                                 Some t \<Rightarrow> removeAll t (pending s) | None \<Rightarrow> pending s),
                   reconnectTimeout := None\<rparr>
    \<and> resume (pause s) = (pause s)\<lparr>paused := False,
                   sent := sent (pause s) @ map (\<lambda>(key, sub).
                      (i, WireMessage ''subscribe'' (sub_type sub) (sub_params sub))) (subscriptions s)\<rparr>
    \<and> subscriptions (resume (pause s)) = subscriptions s)
   \<and> (paused s \<longrightarrow> pause s = s)
   \<and> (\<not> paused s \<longrightarrow> resume s = s)"
proof (intro conjI impI)
  assume h: "socketOpen s \<and> \<not> paused s \<and> socket s = Some i"
  let ?s1 = "s\<lparr>paused := True\<rparr>"
  have o1: "socketOpen ?s1" and k1: "socket ?s1 = Some i"
    using h by (auto simp: socketOpen_iff)
  show p: "pause s = s\<lparr>paused := True,
                   sent := sent s @ map (\<lambda>(key, sub).
                      (i, WireMessage ''unsubscribe'' (sub_type sub) (sub_params sub))) (subscriptions s),
                   pending := (case reconnectTimeout s of
                                 Some t \<Rightarrow> removeAll t (pending s) | None \<Rightarrow> pending s),
                   reconnectTimeout := None\<rparr>"
    using h o1 fold_send_open [OF o1 k1, of "''unsubscribe''" "subscriptions s"]
    by (simp add: pause_def sendUnsubscribe_eq clearTimeout_def Let_def split: option.splits)
  let ?s2 = "(pause s)\<lparr>paused := False\<rparr>"
  have o2: "socketOpen ?s2" and k2: "socket ?s2 = Some i" and s2: "subscriptions ?s2 = subscriptions s"
    and p2: "paused (pause s)"
    using h by (auto simp: p socketOpen_iff)
  show r: "resume (pause s) = (pause s)\<lparr>paused := False,
                   sent := sent (pause s) @ map (\<lambda>(key, sub).
                      (i, WireMessage ''subscribe'' (sub_type sub) (sub_params sub))) (subscriptions s)\<rparr>"
    using o2 p2 fold_send_open [OF o2 k2, of "''subscribe''" "subscriptions s"] s2
    by (simp add: resume_def sendSubscribe_eq Let_def)
  show "subscriptions (resume (pause s)) = subscriptions s"
    by (simp add: r) (simp add: p)
next
  assume "paused s" then show "pause s = s" by (simp add: pause_def)
next
  assume "\<not> paused s" then show "resume s = s" by (simp add: resume_def)
qed

theorem C8_pause_resume_witness:
  "socketOpen two_consumers \<and> \<not> paused two_consumers \<and> socket two_consumers = Some 0
   \<and> subscriptions (resume (pause two_consumers)) = subscriptions two_consumers
   \<and> sent (resume (pause two_consumers)) =
       [(0, WireMessage ''subscribe'' ''trades'' [(''coin'', JStr ''BTC'')]),
        (0, WireMessage ''unsubscribe'' ''trades'' [(''coin'', JStr ''BTC'')]),
        (0, WireMessage ''subscribe'' ''trades'' [(''coin'', JStr ''BTC'')])]
   \<and> pause (pause two_consumers) = pause two_consumers
   \<and> resume two_consumers = two_consumers"
proof -
  have h: "socketOpen two_consumers \<and> \<not> paused two_consumers \<and> socket two_consumers = Some 0"
    by (simp add: two_consumers_eq socketOpen_def)
  from C8_pause_resume [of two_consumers 0] h
  have c8: "pause two_consumers = two_consumers\<lparr>paused := True,
                   sent := sent two_consumers @ map (\<lambda>(key, sub).
                      (0, WireMessage ''unsubscribe'' (sub_type sub) (sub_params sub)))
                        (subscriptions two_consumers),
                   pending := (case reconnectTimeout two_consumers of
                                 Some t \<Rightarrow> removeAll t (pending two_consumers)
                               | None \<Rightarrow> pending two_consumers),
                   reconnectTimeout := None\<rparr>
    \<and> resume (pause two_consumers) = (pause two_consumers)\<lparr>paused := False,
                   sent := sent (pause two_consumers) @ map (\<lambda>(key, sub).
                      (0, WireMessage ''subscribe'' (sub_type sub) (sub_params sub)))
                        (subscriptions two_consumers)\<rparr>
    \<and> subscriptions (resume (pause two_consumers)) = subscriptions two_consumers"
    and rr: "resume two_consumers = two_consumers"
    by blast+
  note pz = c8 [THEN conjunct1]
  note rz = c8 [THEN conjunct2, THEN conjunct1]
  note sb = c8 [THEN conjunct2, THEN conjunct2]
  have sp: "sent (pause two_consumers) = sent two_consumers @ map (\<lambda>(key, sub).
        (0, WireMessage ''unsubscribe'' (sub_type sub) (sub_params sub))) (subscriptions two_consumers)"
    by (subst pz) simp
  have pp: "paused (pause two_consumers)"
    by (subst pz) simp
  have sr: "sent (resume (pause two_consumers)) = sent (pause two_consumers) @ map (\<lambda>(key, sub).
        (0, WireMessage ''subscribe'' (sub_type sub) (sub_params sub))) (subscriptions two_consumers)"
    by (subst rz) simp
  from C8_pause_resume [of "pause two_consumers" 0] pp
  have ppz: "pause (pause two_consumers) = pause two_consumers"
    by blast
  have s: "subscriptions two_consumers = [(''trades:{\"coin\":\"BTC\"}'', btc_trades)]"
    "sent two_consumers = [(0, WireMessage ''subscribe'' ''trades'' [(''coin'', JStr ''BTC'')])]"
    by (simp_all add: two_consumers_eq)
  have "sent (resume (pause two_consumers)) =
       [(0, WireMessage ''subscribe'' ''trades'' [(''coin'', JStr ''BTC'')]),
        (0, WireMessage ''unsubscribe'' ''trades'' [(''coin'', JStr ''BTC'')]),
        (0, WireMessage ''subscribe'' ''trades'' [(''coin'', JStr ''BTC'')])]"
    by (simp add: sr sp s) (simp add: btc_trades_def)
  with h sb rr ppz show ?thesis by blast
qed

text \<open>
  C10.  Consumers are counted by callback identity.  After two calls of \<open>subscribe\<close>
  with the same type, parameters and callback, the topic's consumer set holds the
  callback once, and invoking either returned handle removes it: no entry that remains
  under the key contains it.  If the topic had no other callback, invoking either
  handle deletes the entry, and an unsubscribe message is sent when the socket is open
  (none when it is not), although the other handle was never invoked.
\<close>

theorem C10_callback_identity:
  "subscribe_twice stringify type ps callback s = (h1, h2, s2) \<longrightarrow>
     ((\<forall>sub. map_of (subscriptions s) (buildKey stringify type ps) = Some sub
              \<longrightarrow> distinct (callbacks sub)) \<longrightarrow>
        (\<exists>sub2. map_of (subscriptions s2) (buildKey stringify type ps) = Some sub2
                 \<and> count_list (callbacks sub2) callback = 1)
        \<and> (\<forall>h\<in>{h1, h2}. \<forall>sub3.
              map_of (subscriptions (unsubscribe h s2)) (buildKey stringify type ps) = Some sub3
              \<longrightarrow> callback \<notin> set (callbacks sub3)))
   \<and> ((\<forall>sub. map_of (subscriptions s) (buildKey stringify type ps) = Some sub
              \<longrightarrow> set (callbacks sub) \<subseteq> {callback}) \<longrightarrow>
        (\<forall>h\<in>{h1, h2}.
           map_of (subscriptions (unsubscribe h s2)) (buildKey stringify type ps) = None
           \<and> (\<forall>i. socketOpen s2 \<and> socket s2 = Some i \<longrightarrow>
                 sent (unsubscribe h s2) = sent s2 @ [(i, WireMessage ''unsubscribe'' type ps)])
           \<and> (\<not> socketOpen s2 \<longrightarrow> sent (unsubscribe h s2) = sent s2)))"
proof (intro impI)
  let ?key = "buildKey stringify type ps"
  let ?h = "\<lparr>h_key = ?key, h_callback = callback, h_type = type, h_params = ps\<rparr>"
  assume "subscribe_twice stringify type ps callback s = (h1, h2, s2)"
  then have h1: "h1 = ?h" and h2: "h2 = ?h"
    and s2: "s2 = snd (subscribe stringify type ps callback (snd (subscribe stringify type ps callback s)))"
    by (auto simp: subscribe_twice_eq fst_subscribe)
  have entry: "map_of (subscriptions s2) ?key =
     (case map_of (subscriptions s) ?key of
        None \<Rightarrow> Some \<lparr>sub_type = type, sub_params = ps, callbacks = [callback]\<rparr>
      | Some sub \<Rightarrow> Some (sub\<lparr>callbacks := set_add callback (callbacks sub)\<rparr>))"
    unfolding s2 by (rule subscribe_twice_entry)
  show "((\<forall>sub. map_of (subscriptions s) ?key = Some sub \<longrightarrow> distinct (callbacks sub)) \<longrightarrow>
        (\<exists>sub2. map_of (subscriptions s2) ?key = Some sub2
                 \<and> count_list (callbacks sub2) callback = 1)
        \<and> (\<forall>h\<in>{h1, h2}. \<forall>sub3.
              map_of (subscriptions (unsubscribe h s2)) ?key = Some sub3
              \<longrightarrow> callback \<notin> set (callbacks sub3)))
   \<and> ((\<forall>sub. map_of (subscriptions s) ?key = Some sub
              \<longrightarrow> set (callbacks sub) \<subseteq> {callback}) \<longrightarrow>
        (\<forall>h\<in>{h1, h2}.
           map_of (subscriptions (unsubscribe h s2)) ?key = None
           \<and> (\<forall>i. socketOpen s2 \<and> socket s2 = Some i \<longrightarrow>
                 sent (unsubscribe h s2) = sent s2 @ [(i, WireMessage ''unsubscribe'' type ps)])
           \<and> (\<not> socketOpen s2 \<longrightarrow> sent (unsubscribe h s2) = sent s2)))"
  proof (intro conjI impI)
    assume d: "\<forall>sub. map_of (subscriptions s) ?key = Some sub \<longrightarrow> distinct (callbacks sub)"
    show "\<exists>sub2. map_of (subscriptions s2) ?key = Some sub2
                 \<and> count_list (callbacks sub2) callback = 1"
      using d by (auto simp: entry count_list_set_add split: option.splits)
    have "\<forall>sub3. map_of (subscriptions (unsubscribe ?h s2)) ?key = Some sub3
              \<longrightarrow> callback \<notin> set (callbacks sub3)"
      by (auto simp: unsubscribe_def Let_def sendUnsubscribe_def map_of_map_delete
          map_of_map_replace split: option.splits if_splits)
    then show "\<forall>h\<in>{h1, h2}. \<forall>sub3.
              map_of (subscriptions (unsubscribe h s2)) ?key = Some sub3
              \<longrightarrow> callback \<notin> set (callbacks sub3)"
      by (simp add: h1 h2)
  next
    assume o: "\<forall>sub. map_of (subscriptions s) ?key = Some sub \<longrightarrow> set (callbacks sub) \<subseteq> {callback}"
    have "\<exists>sub2. map_of (subscriptions s2) ?key = Some sub2 \<and> set (callbacks sub2) \<subseteq> {callback}"
    proof (cases "map_of (subscriptions s) ?key")
      case None
      then show ?thesis by (simp add: entry)
    next
      case (Some sub)
      with o have "set (callbacks sub) \<subseteq> {callback}" by simp
      then show ?thesis using Some by (auto simp: entry set_add_def)
    qed
    then obtain sub2 where e: "map_of (subscriptions s2) (h_key ?h) = Some sub2"
      and c: "set (callbacks sub2) \<subseteq> {h_callback ?h}"
      by auto
    show "\<forall>h\<in>{h1, h2}.
           map_of (subscriptions (unsubscribe h s2)) ?key = None
           \<and> (\<forall>i. socketOpen s2 \<and> socket s2 = Some i \<longrightarrow>
                 sent (unsubscribe h s2) = sent s2 @ [(i, WireMessage ''unsubscribe'' type ps)])
           \<and> (\<not> socketOpen s2 \<longrightarrow> sent (unsubscribe h s2) = sent s2)"
      using sent_unsubscribe_last [OF e c] by (simp add: h1 h2)
  qed
qed

theorem C10_callback_identity_witness:
  "subscribe_twice sample_stringify ''trades'' [(''coin'', JStr ''BTC'')] 0 open_idle
     = (btc_handle 0, btc_handle 0, same_callback_twice\<lparr>handles := []\<rparr>)
   \<and> map_of (subscriptions open_idle) ''trades:{\"coin\":\"BTC\"}'' = None
   \<and> map_option callbacks (map_of (subscriptions same_callback_twice) ''trades:{\"coin\":\"BTC\"}'')
        = Some [0]
   \<and> map_of (subscriptions (unsubscribe (btc_handle 0) (same_callback_twice\<lparr>handles := []\<rparr>)))
        ''trades:{\"coin\":\"BTC\"}'' = None
   \<and> sent (unsubscribe (btc_handle 0) (same_callback_twice\<lparr>handles := []\<rparr>))
        = [(0, WireMessage ''subscribe'' ''trades'' [(''coin'', JStr ''BTC'')]),
           (0, WireMessage ''unsubscribe'' ''trades'' [(''coin'', JStr ''BTC'')])]"
proof -
  let ?s2 = "same_callback_twice\<lparr>handles := []\<rparr>"
  have n: "map_of (subscriptions open_idle) ''trades:{\"coin\":\"BTC\"}'' = None"
    by (simp add: open_idle_eq)
  have o: "socketOpen ?s2 \<and> socket ?s2 = Some 0"
    by (simp add: same_callback_twice_eq socketOpen_def)
  have s: "sent ?s2 = [(0, WireMessage ''subscribe'' ''trades'' [(''coin'', JStr ''BTC'')])]"
    by (simp add: same_callback_twice_eq)
  have c: "map_option callbacks (map_of (subscriptions same_callback_twice) ''trades:{\"coin\":\"BTC\"}'')
        = Some [0]"
    by (simp add: same_callback_twice_eq)
  show ?thesis
    using C10_callback_identity [of sample_stringify "''trades''" "[(''coin'', JStr ''BTC'')]" 0
        open_idle "btc_handle 0" "btc_handle 0" ?s2] subscribe_twice_open_idle n o s c
    by (simp add: btc_key)
qed

section \<open>Reconnection\<close>

lemma run_append: "run js thr (xs @ ys) s = run js thr ys (run js thr xs s)"
  by (simp add: run_def)

lemma run_Nil [simp]: "run js thr [] s = s"
  by (simp add: run_def)

lemma run_Cons: "run js thr (e # es) s = run js thr es (step js thr e s)"
  by (simp add: run_def)

lemma list_all_take_nth:
  "i \<le> length xs \<Longrightarrow> list_all P (take i xs) = (\<forall>j<i. P (xs ! j))"
  by (simp add: list_all_length)

lemma attempting_iff:
  "attempting i t a s =
     (socket s = Some i \<and> length (sockets s) = Suc i \<and> sockets s ! i \<noteq> CLOSED
      \<and> (\<forall>j<i. sockets s ! j = CLOSED)
      \<and> length (timers s) = t \<and> pending s = []
      \<and> \<not> paused s \<and> \<not> ctorThrows s \<and> reconnectAttempts s = a)"
  by (auto simp: attempting_def list_all_take_nth)

lemma failure_round:
  assumes "attempting i t a s" and "a < maxReconnectAttempts"
  shows "attempting (Suc i) (Suc t) (Suc a)
           (run js thr [SocketErrored i, SocketClosed i, TimerFired t] s)"
    and "timers (run js thr [SocketErrored i, SocketClosed i, TimerFired t] s)
           = timers s @ [spec_delay (Suc a)]"
    and "status (run js thr [SocketErrored i, SocketClosed i, TimerFired t] s) = StConnecting"
  using assms
  by (auto simp: attempting_iff run_Cons onerror_def onclose_def setStatus_def attemptReconnect_def
      setTimeout_def connect_def socketOpen_iff Let_def spec_delay_def nth_append
      nth_list_update less_Suc_eq)

lemma failure_run:
  assumes "attempting i t a s" and "a + k \<le> maxReconnectAttempts"
  shows "attempting (i + k) (t + k) (a + k) (run js thr (failure_events i t k) s)
         \<and> timers (run js thr (failure_events i t k) s)
             = timers s @ map spec_delay [Suc a..<Suc (a + k)]"
  using assms
proof (induction k arbitrary: i t a s)
  case 0
  then show ?case by simp
next
  case (Suc k)
  let ?s1 = "run js thr [SocketErrored i, SocketClosed i, TimerFired t] s"
  from Suc.prems have a: "a < maxReconnectAttempts" by simp
  note r = failure_round [OF Suc.prems(1) a, of js thr]
  from Suc.prems have "Suc a + k \<le> maxReconnectAttempts" by simp
  from Suc.IH [OF r(1) this]
  have ih: "attempting (Suc i + k) (Suc t + k) (Suc a + k) (run js thr (failure_events (Suc i) (Suc t) k) ?s1)"
    and tm: "timers (run js thr (failure_events (Suc i) (Suc t) k) ?s1)
        = timers ?s1 @ map spec_delay [Suc (Suc a)..<Suc (Suc a + k)]"
    by simp_all
  have e: "run js thr (failure_events i t (Suc k)) s
      = run js thr (failure_events (Suc i) (Suc t) k) ?s1"
    by (simp add: run_def)
  have u: "[Suc a..<Suc (a + Suc k)] = Suc a # [Suc (Suc a)..<Suc (Suc a + k)]"
    by (simp add: upt_conv_Cons)
  show ?case
    unfolding e u using ih tm r(2) by (simp del: upt_Suc)
qed

lemma exhausted:
  assumes "attempting i t maxReconnectAttempts s"
  shows "run js thr [SocketErrored i, SocketClosed i] s
           = s\<lparr>sockets := (sockets s)[i := CLOSED], status := StError\<rparr>"
  using assms
  by (simp add: attempting_iff run_Cons onerror_def onclose_def setStatus_def attemptReconnect_def)

lemma quiescent:
  assumes "list_all (\<lambda>r. r = CLOSED) (sockets s)" and "pending s = []" and "is_environment e"
  shows "step js thr e s = s"
  using assms by (cases e) (auto simp: list_all_length)


lemma reconnectAttempts_onopen: "reconnectAttempts (onopen s) = 0"
proof -
  have f: "reconnectAttempts (fold (\<lambda>(key, sub). sendSubscribe (sub_type sub) (sub_params sub)) subs s')
      = reconnectAttempts s'" for subs s'
    by (induction subs arbitrary: s') (auto simp: sendSubscribe_def send_def split: option.splits)
  show ?thesis
    by (simp add: onopen_def Let_def f setStatus_def)
qed

lemma reconnect_exhausted:
  assumes "socket s = Some i" and "i < length (sockets s)" and "sockets s ! i = CLOSED"
    and "\<not> ctorThrows s"
  shows "reconnectAttempts (reconnect s) = 0 \<and> status (reconnect s) = StConnecting
         \<and> socket (reconnect s) = Some (length (sockets s))
         \<and> sockets (reconnect s) = sockets s @ [CONNECTING]"
  using assms
  by (auto simp: reconnect_def disconnect_def clearTimeout_def closeSocket_def setStatus_def
      connect_def socketOpen_iff Let_def split: option.splits)

lemma attemptReconnect_schedules:
  "\<not> paused s \<Longrightarrow> reconnectAttempts s < maxReconnectAttempts \<Longrightarrow>
   attemptReconnect s =
     s\<lparr>reconnectAttempts := Suc (reconnectAttempts s),
       timers := timers s @ [spec_delay (Suc (reconnectAttempts s))],
       pending := pending s @ [length (timers s)],
       reconnectTimeout := Some (length (timers s))\<rparr>"
  by (simp add: attemptReconnect_def setTimeout_def spec_delay_def Let_def)

lemma attemptReconnect_ceiling:
  "\<not> paused s \<Longrightarrow> maxReconnectAttempts \<le> reconnectAttempts s \<Longrightarrow>
   attemptReconnect s = s\<lparr>status := StError\<rparr>"
  by (simp add: attemptReconnect_def setStatus_def)

lemma connecting0_eq:
  "connecting0 =
     \<lparr>socket = Some 0, subscriptions = [], reconnectAttempts = 0, reconnectTimeout = None,
      status = StConnecting, paused = False, ctorThrows = False, sockets = [CONNECTING],
      sent = [], timers = [], pending = [], delivered = [], handles = []\<rparr>"
  by (simp add: connecting0_def run_def init_def socketOpen_def connect_def setStatus_def Let_def)

lemma spec_delays_10:
  "map spec_delay [1..<Suc 10]
     = [2000, 4000, 8000, 16000, 30000, 30000, 30000, 30000, 30000, 30000]"
  by (simp add: spec_delay_def RECONNECT_DELAY_MS_def MAX_RECONNECT_DELAY_MS_def upt_rec)

section \<open>Pending reconnect timers\<close>

lemma two_sockets_failed_eq:
  "two_sockets_failed =
     \<lparr>socket = Some 1,
      subscriptions =
        [(''trades:{\"coin\":\"BTC\"}'',
          \<lparr>sub_type = ''trades'', sub_params = [(''coin'', JStr ''BTC'')], callbacks = [0]\<rparr>),
         (''l2Book:{\"coin\":\"BTC\"}'',
          \<lparr>sub_type = ''l2Book'', sub_params = [(''coin'', JStr ''BTC'')], callbacks = [1]\<rparr>)],
      reconnectAttempts = 2, reconnectTimeout = Some 1, status = StDisconnected, paused = False,
      ctorThrows = False, sockets = [CLOSED, CLOSED], sent = [],
      timers = [2000, 4000], pending = [0, 1], delivered = [],
      handles = [\<lparr>h_key = ''trades:{\"coin\":\"BTC\"}'', h_callback = 0, h_type = ''trades'',
                    h_params = [(''coin'', JStr ''BTC'')]\<rparr>,
                 \<lparr>h_key = ''l2Book:{\"coin\":\"BTC\"}'', h_callback = 1, h_type = ''l2Book'',
                    h_params = [(''coin'', JStr ''BTC'')]\<rparr>]\<rparr>"
  by (simp add: two_sockets_failed_def run_def init_def subscribe_def buildKey_def sortedParams_def
      get_prop_def sample_stringify_def socketOpen_def connect_def setStatus_def Let_def
      onclose_def attemptReconnect_def setTimeout_def maxReconnectAttempts_def
      RECONNECT_DELAY_MS_def MAX_RECONNECT_DELAY_MS_def)

text \<open>
  C6.  The claim says that at most one reconnect timer is pending in every reachable
  state, a pending timer being cancelled before a new one is set and before \<open>pause\<close> or
  \<open>disconnect\<close>.  \<open>attemptReconnect\<close> overwrites the timer slot without cancelling the
  timer in it.  Two consumers subscribe before the first socket has opened, so that
  \<open>connect\<close> creates two sockets; both close.  Then two timers are pending, and \<open>pause\<close>
  and \<open>disconnect\<close> cancel only the one in the slot: the other is still pending, and when
  it fires in the paused manager a new socket is created.
\<close>

theorem C6_two_pending_timers:
  "pending two_sockets_failed = [0, 1]
   \<and> reconnectTimeout two_sockets_failed = Some 1
   \<and> pending (pause two_sockets_failed) = [0]
   \<and> pending (disconnect two_sockets_failed) = [0]
   \<and> sockets (run sample_stringify never_throws [CallPause, TimerFired 0] two_sockets_failed)
        = [CLOSED, CLOSED, CONNECTING]"
  by (simp add: two_sockets_failed_eq pause_def disconnect_def clearTimeout_def socketOpen_def
      setStatus_def closeSocket_def Let_def run_def connect_def)

section \<open>Reference counting of topic subscriptions\<close>

lemma count_method_append [simp]:
  "count_method m (xs @ ys) = count_method m xs + count_method m ys"
  by (simp add: count_method_def)

lemma count_method_single [simp]:
  "count_method m [(i, WireMessage m' t p)] = (if m' = m then 1 else 0)"
  by (simp add: count_method_def)

lemma socketOpen_handles [simp]: "socketOpen (s\<lparr>handles := x\<rparr>) = socketOpen s"
  by (simp add: socketOpen_iff)

lemma subscribe_open:
  assumes "socketOpen s" and "\<not> paused s" and "socket s = Some i"
  shows "snd (subscribe js t ps cb s) =
     (case map_of (subscriptions s) (buildKey js t ps) of
        None \<Rightarrow> s\<lparr>subscriptions := subscriptions s @
                   [(buildKey js t ps, \<lparr>sub_type = t, sub_params = ps, callbacks = [cb]\<rparr>)],
                 sent := sent s @ [(i, WireMessage ''subscribe'' t ps)]\<rparr>
      | Some sub \<Rightarrow> s\<lparr>subscriptions :=
            map_replace (buildKey js t ps) (sub\<lparr>callbacks := set_add cb (callbacks sub)\<rparr>)
              (subscriptions s)\<rparr>)"
proof (cases "map_of (subscriptions s) (buildKey js t ps)")
  case None
  let ?s3 = "s\<lparr>subscriptions := subscriptions s @
                   [(buildKey js t ps, \<lparr>sub_type = t, sub_params = ps, callbacks = [cb]\<rparr>)]\<rparr>"
  have o: "socketOpen ?s3" and k: "socket ?s3 = Some i" and p: "\<not> paused ?s3"
    using assms by simp_all
  have "sendSubscribe t ps ?s3 = ?s3\<lparr>sent := sent ?s3 @ [(i, WireMessage ''subscribe'' t ps)]\<rparr>"
    unfolding sendSubscribe_def by (rule send_open [OF o k])
  then show ?thesis
    using assms(1) None o p by (simp add: subscribe_def Let_def)
next
  case (Some sub)
  then show ?thesis
    using assms(1) by (simp add: subscribe_def Let_def)
qed

lemma unsubscribe_open:
  assumes "socketOpen s" and "socket s = Some i"
  shows "unsubscribe h s =
     (case map_of (subscriptions s) (h_key h) of
        None \<Rightarrow> s
      | Some sub \<Rightarrow>
          if removeAll (h_callback h) (callbacks sub) = []
          then s\<lparr>subscriptions := map_delete (h_key h) (subscriptions s),
                 sent := sent s @ [(i, WireMessage ''unsubscribe'' (h_type h) (h_params h))]\<rparr>
          else s\<lparr>subscriptions := map_replace (h_key h)
                    (sub\<lparr>callbacks := removeAll (h_callback h) (callbacks sub)\<rparr>)
                    (subscriptions s)\<rparr>)"
proof (cases "map_of (subscriptions s) (h_key h)")
  case None
  then show ?thesis by (simp add: unsubscribe_def)
next
  case (Some sub)
  let ?s1 = "s\<lparr>subscriptions := map_delete (h_key h) (subscriptions s)\<rparr>"
  have o: "socketOpen ?s1" and k: "socket ?s1 = Some i"
    using assms by simp_all
  have "sendUnsubscribe (h_type h) (h_params h) ?s1
      = ?s1\<lparr>sent := sent ?s1 @ [(i, WireMessage ''unsubscribe'' (h_type h) (h_params h))]\<rparr>"
    unfolding sendUnsubscribe_def by (rule send_open [OF o k])
  then show ?thesis
    using Some o by (simp add: unsubscribe_def Let_def)
qed

lemma on_pair_key:
  assumes "distinct (map fst ps)" and "on_pair t ps (CallSubscribe t' ps' cb)"
  shows "buildKey js t' ps' = buildKey js t ps"
proof -
  from assms have d: "distinct (map fst ps')" and e: "set ps' = set ps" and t: "t' = t"
    by simp_all
  from map_of_inject_set [OF d assms(1)] e have "map_of ps' = map_of ps"
    by blast
  from buildKey_canonical [OF d assms(1) this] t show ?thesis
    by simp
qed


lemma step_subscribe_pair:
  assumes inv: "topic_inv (buildKey js t ps) a0 u0 s"
    and d: "distinct (map fst ps)" and e: "on_pair t ps (CallSubscribe t' ps' cb)"
  shows "topic_inv (buildKey js t ps) a0 u0 (step js thr (CallSubscribe t' ps' cb) s)"
    and "consumers (buildKey js t ps) (step js thr (CallSubscribe t' ps' cb) s)
           = set_add cb (consumers (buildKey js t ps) s)"
    and "subs_sent (step js thr (CallSubscribe t' ps' cb) s)
           = subs_sent s + (if registered (buildKey js t ps) s then 0 else 1)"
    and "unsubs_sent (step js thr (CallSubscribe t' ps' cb) s) = unsubs_sent s"
    and "registered (buildKey js t ps) (step js thr (CallSubscribe t' ps' cb) s)"
    and "map h_callback (handles (step js thr (CallSubscribe t' ps' cb) s))
           = map h_callback (handles s) @ [cb]"
proof -
  let ?key = "buildKey js t ps"
  let ?s' = "step js thr (CallSubscribe t' ps' cb) s"
  have k: "buildKey js t' ps' = ?key" by (rule on_pair_key [OF d e])
  from inv have o: "socketOpen s" and p: "\<not> paused s"
    and hk: "list_all (\<lambda>h. h_key h = ?key) (handles s)"
    and rc: "registered ?key s = (consumers ?key s \<noteq> [])"
    and bal: "subs_sent s + u0 = unsubs_sent s + a0 + (if registered ?key s then 1 else 0)"
    by (simp_all add: topic_inv_def)
  from o obtain i where i: "socket s = Some i" by (auto simp: socketOpen_iff)
  have st: "?s' = (snd (subscribe js t' ps' cb s))\<lparr>handles := handles s @ [fst (subscribe js t' ps' cb s)]\<rparr>"
  proof -
    have "handles (snd (subscribe js t' ps' cb s)) = handles s"
      by (simp add: subscribe_open [OF o p i] split: option.splits)
    then show ?thesis by (simp add: split_beta Let_def)
  qed
  note so = subscribe_open [OF o p i, of js t' ps' cb, unfolded k]
  show c: "consumers ?key ?s' = set_add cb (consumers ?key s)"
    unfolding st
    by (cases "map_of (subscriptions s) ?key")
       (simp_all add: so consumers_def map_of_snoc map_of_map_replace set_add_def
          del: map_of_append)
  show r: "registered ?key ?s'"
    unfolding st
    by (cases "map_of (subscriptions s) ?key")
       (simp_all add: so registered_def map_of_snoc map_of_map_replace del: map_of_append)
  show ss: "subs_sent ?s' = subs_sent s + (if registered ?key s then 0 else 1)"
    unfolding st
    by (cases "map_of (subscriptions s) ?key")
       (simp_all add: so subs_sent_def registered_def)
  show us: "unsubs_sent ?s' = unsubs_sent s"
    unfolding st
    by (cases "map_of (subscriptions s) ?key")
       (simp_all add: so unsubs_sent_def)
  show "map h_callback (handles ?s') = map h_callback (handles s) @ [cb]"
    unfolding st by (simp add: fst_subscribe)
  have o': "socketOpen ?s'" and p': "\<not> paused ?s'"
    unfolding st using o p by (cases "map_of (subscriptions s) ?key"; simp add: so)+
  have hk': "list_all (\<lambda>h. h_key h = ?key) (handles ?s')"
    unfolding st using hk by (simp add: fst_subscribe k)
  have ne: "consumers ?key ?s' \<noteq> []"
    unfolding c by (auto simp: set_add_def)
  show "topic_inv ?key a0 u0 ?s'"
    unfolding topic_inv_def ss us using o' p' hk' r ne bal by simp
qed


lemma step_handle_pair:
  assumes inv: "topic_inv key a0 u0 s" and n: "n < length (handles s)"
  shows "topic_inv key a0 u0 (step js thr (CallHandle n) s)"
    and "consumers key (step js thr (CallHandle n) s)
           = removeAll (h_callback (handles s ! n)) (consumers key s)"
    and "subs_sent (step js thr (CallHandle n) s) = subs_sent s"
    and "handles (step js thr (CallHandle n) s) = handles s"
proof -
  let ?h = "handles s ! n"
  let ?s' = "step js thr (CallHandle n) s"
  from inv have o: "socketOpen s" and p: "\<not> paused s"
    and hk: "list_all (\<lambda>h. h_key h = key) (handles s)"
    and rc: "registered key s = (consumers key s \<noteq> [])"
    and bal: "subs_sent s + u0 = unsubs_sent s + a0 + (if registered key s then 1 else 0)"
    by (simp_all add: topic_inv_def)
  from o obtain i where i: "socket s = Some i" by (auto simp: socketOpen_iff)
  from hk n have k: "h_key ?h = key" by (simp add: list_all_length)
  have st: "?s' = unsubscribe ?h s" using n by simp
  note uo = unsubscribe_open [OF o i, of ?h, unfolded k]
  show c: "consumers key ?s' = removeAll (h_callback ?h) (consumers key s)"
    unfolding st
    by (cases "map_of (subscriptions s) key")
       (simp_all add: uo consumers_def map_of_map_delete map_of_map_replace)
  show ss: "subs_sent ?s' = subs_sent s"
    unfolding st
    by (cases "map_of (subscriptions s) key") (simp_all add: uo subs_sent_def)
  show hs: "handles ?s' = handles s"
    unfolding st
    by (cases "map_of (subscriptions s) key") (simp_all add: uo)
  have r: "registered key ?s' = (consumers key ?s' \<noteq> [])"
    unfolding st using rc
    by (cases "map_of (subscriptions s) key")
       (simp_all add: uo consumers_def registered_def map_of_map_delete map_of_map_replace)
  have us: "unsubs_sent ?s' = unsubs_sent s
      + (if registered key s \<and> \<not> registered key ?s' then 1 else 0)"
    unfolding st
    by (cases "map_of (subscriptions s) key")
       (simp_all add: uo unsubs_sent_def registered_def map_of_map_delete map_of_map_replace)
  have nr: "\<not> registered key s \<Longrightarrow> \<not> registered key ?s'"
    unfolding st
    by (cases "map_of (subscriptions s) key") (simp_all add: uo registered_def)
  have o': "socketOpen ?s'" and p': "\<not> paused ?s'"
    unfolding st using o p by (cases "map_of (subscriptions s) key"; simp add: uo)+
  have hk': "list_all (\<lambda>h. h_key h = key) (handles ?s')"
    using hk by (simp only: hs)
  show "topic_inv key a0 u0 ?s'"
    unfolding topic_inv_def ss us using o' p' hk' r bal nr by auto
qed

lemma run_pair_inv:
  assumes "distinct (map fst ps)"
  shows "topic_inv (buildKey js t ps) a0 u0 s \<Longrightarrow> list_all (on_pair t ps) evs \<Longrightarrow>
         topic_inv (buildKey js t ps) a0 u0 (run js thr evs s)"
proof (induction evs arbitrary: s)
  case Nil
  then show ?case by (simp add: run_def)
next
  case (Cons e evs)
  from Cons.prems have e: "on_pair t ps e" and r: "list_all (on_pair t ps) evs" by simp_all
  have "topic_inv (buildKey js t ps) a0 u0 (step js thr e s)"
  proof (cases e)
    case (CallSubscribe t' ps' cb)
    with e step_subscribe_pair(1) [OF Cons.prems(1) assms] show ?thesis by blast
  next
    case (CallHandle n)
    show ?thesis
    proof (cases "n < length (handles s)")
      case True
      with CallHandle step_handle_pair(1) [OF Cons.prems(1)] show ?thesis by blast
    next
      case False
      with CallHandle Cons.prems(1) show ?thesis by simp
    qed
  qed (use e in simp_all)
  from Cons.IH [OF this r] show ?case by (simp add: run_Cons)
qed

lemma run_subscribes:
  assumes "distinct (map fst ps)"
  shows "topic_inv (buildKey js t ps) a0 u0 s \<Longrightarrow> list_all (on_pair t ps) xs \<Longrightarrow>
         list_all is_subscribe xs \<Longrightarrow>
         unsubs_sent (run js thr xs s) = unsubs_sent s
         \<and> subs_sent (run js thr xs s)
              = subs_sent s + (if registered (buildKey js t ps) s \<or> xs = [] then 0 else 1)
         \<and> (\<exists>ys. length ys = length xs
                \<and> map h_callback (handles (run js thr xs s)) = map h_callback (handles s) @ ys)
         \<and> set (consumers (buildKey js t ps) (run js thr xs s))
              \<subseteq> set (consumers (buildKey js t ps) s)
                  \<union> set (map h_callback (handles (run js thr xs s)))"
proof (induction xs arbitrary: s)
  case Nil
  then show ?case by (simp add: run_def)
next
  case (Cons e xs)
  let ?key = "buildKey js t ps"
  from Cons.prems obtain t' ps' cb where e: "e = CallSubscribe t' ps' cb"
    by (cases e) simp_all
  from Cons.prems e have op: "on_pair t ps (CallSubscribe t' ps' cb)"
    and r: "list_all (on_pair t ps) xs" and i: "list_all is_subscribe xs" by simp_all
  let ?s1 = "step js thr (CallSubscribe t' ps' cb) s"
  let ?s2 = "run js thr xs ?s1"
  note st = step_subscribe_pair [OF Cons.prems(1) assms op, of thr]
  from Cons.IH [OF st(1) r i]
  have ih1: "unsubs_sent ?s2 = unsubs_sent ?s1"
    and ih2: "subs_sent ?s2 = subs_sent ?s1 + (if registered ?key ?s1 \<or> xs = [] then 0 else 1)"
    and ih3: "\<exists>ys. length ys = length xs
                \<and> map h_callback (handles ?s2) = map h_callback (handles ?s1) @ ys"
    and ih4: "set (consumers ?key ?s2)
       \<subseteq> set (consumers ?key ?s1) \<union> set (map h_callback (handles ?s2))"
    by blast+
  from ih3 obtain ys where ys: "length ys = length xs"
    "map h_callback (handles ?s2) = map h_callback (handles ?s1) @ ys" by blast
  have r2: "run js thr (e # xs) s = ?s2" by (simp add: run_Cons e)
  have h: "map h_callback (handles ?s2) = map h_callback (handles s) @ (cb # ys)"
    using ys(2) st(6) by simp
  have c: "set (consumers ?key ?s1) \<subseteq> set (consumers ?key s) \<union> {cb}"
    unfolding st(2) by (auto simp: set_add_def)
  have 1: "unsubs_sent ?s2 = unsubs_sent s" using ih1 st(4) by simp
  have 2: "subs_sent ?s2 = subs_sent s + (if registered ?key s then 0 else 1)"
    using ih2 st(3) st(5) by simp
  have 3: "\<exists>zs. length zs = length (e # xs)
                \<and> map h_callback (handles ?s2) = map h_callback (handles s) @ zs"
    using h ys(1) by (intro exI [of _ "cb # ys"]) simp
  have 4: "set (consumers ?key ?s2)
       \<subseteq> set (consumers ?key s) \<union> set (map h_callback (handles ?s2))"
    using ih4 c unfolding h by auto
  show ?case
    unfolding r2 using 1 2 3 4 by simp
qed

lemma run_releases:
  "topic_inv key a0 u0 s \<Longrightarrow>
     topic_inv key a0 u0 (run js thr (map CallHandle ns) s)
     \<and> subs_sent (run js thr (map CallHandle ns) s) = subs_sent s
     \<and> handles (run js thr (map CallHandle ns) s) = handles s
     \<and> set (consumers key (run js thr (map CallHandle ns) s)) \<subseteq> set (consumers key s)
     \<and> (\<forall>n\<in>set ns. n < length (handles s) \<longrightarrow>
           h_callback (handles s ! n) \<notin> set (consumers key (run js thr (map CallHandle ns) s)))"
proof (induction ns arbitrary: s)
  case Nil
  then show ?case by (simp add: run_def)
next
  case (Cons n ns)
  let ?s1 = "step js thr (CallHandle n) s"
  let ?s2 = "run js thr (map CallHandle ns) ?s1"
  have r2: "run js thr (map CallHandle (n # ns)) s = ?s2" by (simp add: run_Cons)
  have s1: "topic_inv key a0 u0 ?s1 \<and> subs_sent ?s1 = subs_sent s \<and> handles ?s1 = handles s
      \<and> set (consumers key ?s1) \<subseteq> set (consumers key s)
      \<and> (n < length (handles s) \<longrightarrow> h_callback (handles s ! n) \<notin> set (consumers key ?s1))"
  proof (cases "n < length (handles s)")
    case True
    note st = step_handle_pair [OF Cons.prems True, of js thr]
    show ?thesis using st(1,3,4) unfolding st(2) by auto
  next
    case False
    with Cons.prems show ?thesis by simp
  qed
  from Cons.IH [of ?s1] s1
  have ih: "topic_inv key a0 u0 ?s2" "subs_sent ?s2 = subs_sent ?s1" "handles ?s2 = handles ?s1"
    "set (consumers key ?s2) \<subseteq> set (consumers key ?s1)"
    "\<forall>m\<in>set ns. m < length (handles ?s1) \<longrightarrow> h_callback (handles ?s1 ! m) \<notin> set (consumers key ?s2)"
    by blast+
  show ?case
    unfolding r2 using ih s1 by auto
qed


lemma subscribe_emits:
  assumes "socketOpen s" and "\<not> paused s" and "socket s = Some i"
  shows "sent (step js thr (CallSubscribe t ps cb) s) =
           sent s @ (if registered (buildKey js t ps) s then []
                     else [(i, WireMessage ''subscribe'' t ps)])"
proof -
  have "sent (step js thr (CallSubscribe t ps cb) s) = sent (snd (subscribe js t ps cb s))"
    by (simp add: split_beta)
  then show ?thesis
    by (cases "map_of (subscriptions s) (buildKey js t ps)")
       (simp_all add: subscribe_open [OF assms] registered_def)
qed

lemma handle_emits:
  assumes "socketOpen s" and "socket s = Some i" and "n < length (handles s)"
  shows "sent (step js thr (CallHandle n) s) =
           sent s @ (if registered (h_key (handles s ! n)) s
                        \<and> \<not> registered (h_key (handles s ! n)) (step js thr (CallHandle n) s)
                     then [(i, WireMessage ''unsubscribe'' (h_type (handles s ! n))
                                 (h_params (handles s ! n)))]
                     else [])"
proof -
  have st: "step js thr (CallHandle n) s = unsubscribe (handles s ! n) s"
    using assms(3) by simp
  show ?thesis
    unfolding st
    by (cases "map_of (subscriptions s) (h_key (handles s ! n))")
       (simp_all add: unsubscribe_open [OF assms(1,2)] registered_def map_of_map_delete
          map_of_map_replace)
qed

lemma topic_inv_start:
  assumes "socketOpen s0" and "\<not> paused s0" and "handles s0 = []" and "\<not> registered key s0"
  shows "topic_inv key (subs_sent s0) (unsubs_sent s0) s0"
  using assms by (simp add: topic_inv_def registered_def consumers_def)

lemma subscribe_then_release:
  assumes d: "distinct (map fst ps)"
    and inv: "topic_inv (buildKey js t ps) a0 u0 s0" and h0: "handles s0 = []"
    and r0: "\<not> registered (buildKey js t ps) s0"
    and xs: "list_all (on_pair t ps) xs" "list_all is_subscribe xs" "xs \<noteq> []"
    and ns: "\<forall>n<length xs. n \<in> set ns"
  shows "subs_sent (run js thr (xs @ map CallHandle ns) s0) = subs_sent s0 + 1"
    and "unsubs_sent (run js thr (xs @ map CallHandle ns) s0) = unsubs_sent s0 + 1"
    and "\<not> registered (buildKey js t ps) (run js thr (xs @ map CallHandle ns) s0)"
proof -
  let ?key = "buildKey js t ps"
  let ?s1 = "run js thr xs s0"
  let ?s2 = "run js thr (map CallHandle ns) ?s1"
  have r: "run js thr (xs @ map CallHandle ns) s0 = ?s2" by (simp add: run_def)
  have i1: "topic_inv ?key a0 u0 ?s1" by (rule run_pair_inv [OF d inv xs(1)])
  from inv r0 have c0: "consumers ?key s0 = []" by (simp add: topic_inv_def)
  from run_subscribes [OF d inv xs(1,2), of thr] r0 xs(3) h0 c0
  have u1: "unsubs_sent ?s1 = unsubs_sent s0" and a1: "subs_sent ?s1 = subs_sent s0 + 1"
    and l1: "length (handles ?s1) = length xs"
    and c1: "set (consumers ?key ?s1) \<subseteq> set (map h_callback (handles ?s1))"
    by (auto dest: arg_cong [where f = length])
  from run_releases [OF i1, of js thr ns]
  have i2: "topic_inv ?key a0 u0 ?s2" and a2: "subs_sent ?s2 = subs_sent ?s1"
    and c2: "set (consumers ?key ?s2) \<subseteq> set (consumers ?key ?s1)"
    and g2: "\<forall>n\<in>set ns. n < length (handles ?s1) \<longrightarrow>
           h_callback (handles ?s1 ! n) \<notin> set (consumers ?key ?s2)"
    by blast+
  have e: "consumers ?key ?s2 = []"
  proof (rule ccontr)
    assume "consumers ?key ?s2 \<noteq> []"
    then obtain c where c: "c \<in> set (consumers ?key ?s2)" by (cases "consumers ?key ?s2") auto
    with c2 c1 have "c \<in> set (map h_callback (handles ?s1))" by blast
    then obtain n where n: "n < length (handles ?s1)" "c = h_callback (handles ?s1 ! n)"
      by (auto simp: in_set_conv_nth)
    with ns l1 have "n \<in> set ns" by simp
    with g2 n c show False by blast
  qed
  with i2 have nr: "\<not> registered ?key ?s2" by (simp add: topic_inv_def)
  from inv r0 have b0: "subs_sent s0 + u0 = unsubs_sent s0 + a0" by (simp add: topic_inv_def)
  from i2 nr have b2: "subs_sent ?s2 + u0 = unsubs_sent ?s2 + a0" by (simp add: topic_inv_def)
  show "subs_sent (run js thr (xs @ map CallHandle ns) s0) = subs_sent s0 + 1"
    unfolding r using a2 a1 by simp
  show "unsubs_sent (run js thr (xs @ map CallHandle ns) s0) = unsubs_sent s0 + 1"
    unfolding r using a2 a1 b0 b2 by simp
  show "\<not> registered ?key (run js thr (xs @ map CallHandle ns) s0)"
    unfolding r by (rule nr)
qed

text \<open>
  C1, as stated, fails.  The claim says that every sequence of subscribe calls and handle
  invocations on one topic emits exactly one subscribe and, once all handles are
  released, exactly one unsubscribe message.  On an open connection, subscribing,
  releasing, subscribing again and releasing again emits two subscribe and two
  unsubscribe messages, and every handle has been released.
\<close>

theorem C1_counterexample:
  "socketOpen open_idle \<and> \<not> paused open_idle
   \<and> list_all (on_pair ''trades'' [(''coin'', JStr ''BTC'')]) resubscribe_events
   \<and> sent resubscribed =
       [(0, WireMessage ''subscribe'' ''trades'' [(''coin'', JStr ''BTC'')]),
        (0, WireMessage ''unsubscribe'' ''trades'' [(''coin'', JStr ''BTC'')]),
        (0, WireMessage ''subscribe'' ''trades'' [(''coin'', JStr ''BTC'')]),
        (0, WireMessage ''unsubscribe'' ''trades'' [(''coin'', JStr ''BTC'')])]
   \<and> subs_sent resubscribed = 2 \<and> unsubs_sent resubscribed = 2
   \<and> subscriptions resubscribed = []"
  by (simp add: resubscribed_def resubscribe_events_def open_idle_eq run_def subscribe_def
      unsubscribe_def btc_key socketOpen_def Let_def map_delete_def sendSubscribe_def
      sendUnsubscribe_def send_def subs_sent_def unsubs_sent_def count_method_def)

lemma handle_emits_exact:
  assumes "socketOpen s" and "socket s = Some i" and "n < length (handles s)"
  shows "sent (step js thr (CallHandle n) s) =
           sent s @ (if registered (h_key (handles s ! n)) s
                        \<and> removeAll (h_callback (handles s ! n))
                             (consumers (h_key (handles s ! n)) s) = []
                     then [(i, WireMessage ''unsubscribe'' (h_type (handles s ! n))
                                 (h_params (handles s ! n)))]
                     else [])"
    and "consumers (h_key (handles s ! n)) (step js thr (CallHandle n) s)
           = removeAll (h_callback (handles s ! n)) (consumers (h_key (handles s ! n)) s)"
proof -
  have st: "step js thr (CallHandle n) s = unsubscribe (handles s ! n) s"
    using assms(3) by simp
  show "sent (step js thr (CallHandle n) s) =
           sent s @ (if registered (h_key (handles s ! n)) s
                        \<and> removeAll (h_callback (handles s ! n))
                             (consumers (h_key (handles s ! n)) s) = []
                     then [(i, WireMessage ''unsubscribe'' (h_type (handles s ! n))
                                 (h_params (handles s ! n)))]
                     else [])"
    unfolding st
    by (cases "map_of (subscriptions s) (h_key (handles s ! n))")
       (simp_all add: unsubscribe_open [OF assms(1,2)] registered_def consumers_def)
  show "consumers (h_key (handles s ! n)) (step js thr (CallHandle n) s)
           = removeAll (h_callback (handles s ! n)) (consumers (h_key (handles s ! n)) s)"
    unfolding st
    by (cases "map_of (subscriptions s) (h_key (handles s ! n))")
       (simp_all add: unsubscribe_open [OF assms(1,2)] consumers_def map_of_map_delete
          map_of_map_replace)
qed

lemma subscribe_consumers:
  assumes "socketOpen s" and "\<not> paused s"
  shows "consumers (buildKey js t ps) (step js thr (CallSubscribe t ps cb) s)
           = set_add cb (consumers (buildKey js t ps) s)"
proof -
  from assms(1) obtain i where i: "socket s = Some i" by (auto simp: socketOpen_iff)
  have "consumers (buildKey js t ps) (step js thr (CallSubscribe t ps cb) s)
      = consumers (buildKey js t ps) (snd (subscribe js t ps cb s))"
    by (simp add: split_beta consumers_def)
  also have "\<dots> = set_add cb (consumers (buildKey js t ps) s)"
    by (cases "map_of (subscriptions s) (buildKey js t ps)")
       (simp_all add: subscribe_open [OF assms i] consumers_def map_of_snoc map_of_map_replace
          set_add_def del: map_of_append)
  finally show ?thesis .
qed

lemma run_refines_ref_count:
  assumes d: "distinct (map fst ps)"
  shows "topic_inv (buildKey js t ps) a0 u0 s \<Longrightarrow> list_all (on_pair t ps) evs \<Longrightarrow>
         (\<exists>msgs. sent (run js thr evs s) = sent s @ msgs
            \<and> map (\<lambda>(i, w). wm_method w) msgs
                = spec_ref_count (consumers (buildKey js t ps) s) (map h_callback (handles s)) evs)
         \<and> consumers (buildKey js t ps) (run js thr evs s)
             = spec_consumers (consumers (buildKey js t ps) s) (map h_callback (handles s)) evs"
proof (induction evs arbitrary: s)
  case Nil
  then show ?case by (simp add: run_def)
next
  case (Cons e evs)
  let ?key = "buildKey js t ps"
  from Cons.prems have op: "on_pair t ps e" and r: "list_all (on_pair t ps) evs" by simp_all
  from Cons.prems(1) have o: "socketOpen s" and p: "\<not> paused s"
    and hk: "list_all (\<lambda>h. h_key h = ?key) (handles s)"
    and rc: "registered ?key s = (consumers ?key s \<noteq> [])"
    by (simp_all add: topic_inv_def)
  from o obtain i where i: "socket s = Some i" by (auto simp: socketOpen_iff)
  let ?s1 = "step js thr e s"
  have s1: "topic_inv ?key a0 u0 ?s1
      \<and> (\<exists>m1. sent ?s1 = sent s @ m1
            \<and> map (\<lambda>(i, w). wm_method w) m1 @ spec_ref_count (consumers ?key ?s1)
                   (map h_callback (handles ?s1)) evs
                = spec_ref_count (consumers ?key s) (map h_callback (handles s)) (e # evs))
      \<and> spec_consumers (consumers ?key ?s1) (map h_callback (handles ?s1)) evs
          = spec_consumers (consumers ?key s) (map h_callback (handles s)) (e # evs)"
  proof (cases e)
    case (CallSubscribe t' ps' cb)
    with op have op': "on_pair t ps (CallSubscribe t' ps' cb)" by simp
    note st = step_subscribe_pair [OF Cons.prems(1) d op', of thr]
    have k: "buildKey js t' ps' = ?key" by (rule on_pair_key [OF d op'])
    note em = subscribe_emits [OF o p i, of js thr t' ps' cb, unfolded k]
    show ?thesis
      unfolding CallSubscribe using st(1) st(2) st(6) em rc by auto
  next
    case (CallHandle n)
    show ?thesis
    proof (cases "n < length (handles s)")
      case True
      from hk True have k: "h_key (handles s ! n) = ?key" by (simp add: list_all_length)
      note st = step_handle_pair [OF Cons.prems(1) True, of js thr]
      note em = handle_emits_exact [OF o i True, of js thr, unfolded k]
      show ?thesis
        unfolding CallHandle using st(1) st(4) em True rc by auto
    next
      case False
      with CallHandle Cons.prems(1) show ?thesis by simp
    qed
  qed (use op in simp_all)
  then obtain m1 where m1: "sent ?s1 = sent s @ m1"
    "map (\<lambda>(i, w). wm_method w) m1 @ spec_ref_count (consumers ?key ?s1)
                   (map h_callback (handles ?s1)) evs
                = spec_ref_count (consumers ?key s) (map h_callback (handles s)) (e # evs)"
    by blast
  from Cons.IH [OF s1 [THEN conjunct1] r]
  obtain m2 where m2: "sent (run js thr evs ?s1) = sent ?s1 @ m2"
    "map (\<lambda>(i, w). wm_method w) m2
       = spec_ref_count (consumers ?key ?s1) (map h_callback (handles ?s1)) evs"
    and c2: "consumers ?key (run js thr evs ?s1)
       = spec_consumers (consumers ?key ?s1) (map h_callback (handles ?s1)) evs"
    by blast
  have "sent (run js thr (e # evs) s) = sent s @ (m1 @ m2)
      \<and> map (\<lambda>(i, w). wm_method w) (m1 @ m2)
          = spec_ref_count (consumers ?key s) (map h_callback (handles s)) (e # evs)"
    using m1 m2 by (simp add: run_Cons)
  moreover have "consumers ?key (run js thr (e # evs) s)
      = spec_consumers (consumers ?key s) (map h_callback (handles s)) (e # evs)"
    using c2 s1 by (simp add: run_Cons)
  ultimately show ?case by blast
qed


lemma handle_registered:
  assumes "socketOpen s" and "socket s = Some i" and "n < length (handles s)"
  shows "registered (h_key (handles s ! n)) (step js thr (CallHandle n) s)
           = (registered (h_key (handles s ! n)) s
              \<and> removeAll (h_callback (handles s ! n))
                   (consumers (h_key (handles s ! n)) s) \<noteq> [])"
proof -
  have st: "step js thr (CallHandle n) s = unsubscribe (handles s ! n) s"
    using assms(3) by simp
  show ?thesis
    unfolding st
    by (cases "map_of (subscriptions s) (h_key (handles s ! n))")
       (simp_all add: unsubscribe_open [OF assms(1,2)] registered_def consumers_def
          map_of_map_delete map_of_map_replace)
qed

text \<open>
  C1, amended.  The key of a topic does not depend on the insertion order of the
  parameter keys.  On an open connection that is not paused, a call of \<open>subscribe\<close>
  adds the callback to the topic's consumer set and emits one subscribe message if the
  topic has no entry, and none otherwise; an invocation of a handle removes its
  callback from the consumer set and emits one unsubscribe message if the topic has an
  entry and no callback is left in it (the entry is then deleted), and none otherwise.
  Hence, for every sequence of subscribe calls and handle invocations on one topic that
  starts without an entry, the methods of the messages sent are those of the reference
  counting automaton \<open>spec_ref_count\<close>, the consumer set is the one of \<open>spec_consumers\<close>,
  the entry exists exactly while the consumer set is not empty, the subscribe messages
  sent exceed the unsubscribe messages sent by one while the topic has consumers and by
  none while it has not; and a sequence in which all subscribe calls come before all
  handle invocations, every returned handle being invoked at least once, emits exactly
  one subscribe and exactly one unsubscribe message.
\<close>

theorem C1_ref_counting:
  "(distinct (map fst ps) \<and> distinct (map fst ps') \<and> map_of ps = map_of ps' \<longrightarrow>
      buildKey stringify type ps = buildKey stringify type ps')
   \<and> (socketOpen s \<and> \<not> paused s \<and> socket s = Some i \<longrightarrow>
        sent (step stringify throws (CallSubscribe type ps callback) s) =
          sent s @ (if registered (buildKey stringify type ps) s then []
                    else [(i, WireMessage ''subscribe'' type ps)])
        \<and> consumers (buildKey stringify type ps)
             (step stringify throws (CallSubscribe type ps callback) s)
            = set_add callback (consumers (buildKey stringify type ps) s))
   \<and> (socketOpen s \<and> socket s = Some i \<and> n < length (handles s) \<longrightarrow>
        sent (step stringify throws (CallHandle n) s) =
          sent s @ (if registered (h_key (handles s ! n)) s
                       \<and> removeAll (h_callback (handles s ! n))
                            (consumers (h_key (handles s ! n)) s) = []
                    then [(i, WireMessage ''unsubscribe'' (h_type (handles s ! n))
                                (h_params (handles s ! n)))]
                    else [])
        \<and> consumers (h_key (handles s ! n)) (step stringify throws (CallHandle n) s)
            = removeAll (h_callback (handles s ! n)) (consumers (h_key (handles s ! n)) s)
        \<and> registered (h_key (handles s ! n)) (step stringify throws (CallHandle n) s)
            = (registered (h_key (handles s ! n)) s
               \<and> removeAll (h_callback (handles s ! n))
                    (consumers (h_key (handles s ! n)) s) \<noteq> []))
   \<and> (socketOpen s0 \<and> \<not> paused s0 \<and> handles s0 = []
        \<and> \<not> registered (buildKey stringify type ps) s0
        \<and> distinct (map fst ps) \<and> list_all (on_pair type ps) evs \<longrightarrow>
        methods_since s0 (run stringify throws evs s0) = spec_ref_count [] [] evs
        \<and> consumers (buildKey stringify type ps) (run stringify throws evs s0)
            = spec_consumers [] [] evs
        \<and> registered (buildKey stringify type ps) (run stringify throws evs s0)
            = (consumers (buildKey stringify type ps) (run stringify throws evs s0) \<noteq> [])
        \<and> subs_sent (run stringify throws evs s0) + unsubs_sent s0 =
            unsubs_sent (run stringify throws evs s0) + subs_sent s0
              + (if registered (buildKey stringify type ps) (run stringify throws evs s0) then 1 else 0)
        \<and> (evs = xs @ map CallHandle ns \<and> xs \<noteq> [] \<and> list_all is_subscribe xs
             \<and> (\<forall>n<length xs. n \<in> set ns) \<longrightarrow>
             subs_sent (run stringify throws evs s0) = subs_sent s0 + 1
             \<and> unsubs_sent (run stringify throws evs s0) = unsubs_sent s0 + 1
             \<and> \<not> registered (buildKey stringify type ps) (run stringify throws evs s0)))"
proof (intro conjI impI)
  assume "distinct (map fst ps) \<and> distinct (map fst ps') \<and> map_of ps = map_of ps'"
  then show "buildKey stringify type ps = buildKey stringify type ps'"
    by (simp add: buildKey_canonical)
next
  assume h: "socketOpen s \<and> \<not> paused s \<and> socket s = Some i"
  then show "sent (step stringify throws (CallSubscribe type ps callback) s) =
          sent s @ (if registered (buildKey stringify type ps) s then []
                    else [(i, WireMessage ''subscribe'' type ps)])"
    using subscribe_emits [of s i stringify throws type ps callback] by blast
  from h show "consumers (buildKey stringify type ps)
             (step stringify throws (CallSubscribe type ps callback) s)
            = set_add callback (consumers (buildKey stringify type ps) s)"
    using subscribe_consumers [of s stringify type ps throws callback] by blast
next
  assume h: "socketOpen s \<and> socket s = Some i \<and> n < length (handles s)"
  then have o: "socketOpen s" and i: "socket s = Some i" and n: "n < length (handles s)"
    by simp_all
  show "sent (step stringify throws (CallHandle n) s) =
          sent s @ (if registered (h_key (handles s ! n)) s
                       \<and> removeAll (h_callback (handles s ! n))
                            (consumers (h_key (handles s ! n)) s) = []
                    then [(i, WireMessage ''unsubscribe'' (h_type (handles s ! n))
                                (h_params (handles s ! n)))]
                    else [])"
    by (rule handle_emits_exact(1) [OF o i n])
  show "consumers (h_key (handles s ! n)) (step stringify throws (CallHandle n) s)
            = removeAll (h_callback (handles s ! n)) (consumers (h_key (handles s ! n)) s)"
    by (rule handle_emits_exact(2) [OF o i n])
  show "registered (h_key (handles s ! n)) (step stringify throws (CallHandle n) s)
            = (registered (h_key (handles s ! n)) s
               \<and> removeAll (h_callback (handles s ! n))
                    (consumers (h_key (handles s ! n)) s) \<noteq> [])"
    by (rule handle_registered [OF o i n])
next
  assume h: "socketOpen s0 \<and> \<not> paused s0 \<and> handles s0 = []
        \<and> \<not> registered (buildKey stringify type ps) s0
        \<and> distinct (map fst ps) \<and> list_all (on_pair type ps) evs"
  let ?key = "buildKey stringify type ps"
  let ?s = "run stringify throws evs s0"
  from h have inv: "topic_inv ?key (subs_sent s0) (unsubs_sent s0) s0"
    by (simp add: topic_inv_start)
  from h have d: "distinct (map fst ps)" and ev: "list_all (on_pair type ps) evs" by simp_all
  from h have h0: "handles s0 = []" and r0: "\<not> registered ?key s0" by simp_all
  from r0 have c0: "consumers ?key s0 = []" by (simp add: registered_def consumers_def)
  from run_refines_ref_count [OF d inv ev, of throws]
  obtain msgs where m: "sent ?s = sent s0 @ msgs"
    "map (\<lambda>(i, w). wm_method w) msgs = spec_ref_count [] [] evs"
    and c: "consumers ?key ?s = spec_consumers [] [] evs"
    unfolding c0 h0 by auto
  show "methods_since s0 ?s = spec_ref_count [] [] evs"
    using m by (simp add: methods_since_def)
  show "consumers ?key ?s = spec_consumers [] [] evs" by (rule c)
  note ri = run_pair_inv [OF d inv ev, of throws]
  from ri show "registered ?key ?s = (consumers ?key ?s \<noteq> [])"
    by (simp add: topic_inv_def)
  from ri show "subs_sent ?s + unsubs_sent s0 =
          unsubs_sent ?s + subs_sent s0 + (if registered ?key ?s then 1 else 0)"
    by (simp add: topic_inv_def)
  assume g: "evs = xs @ map CallHandle ns \<and> xs \<noteq> [] \<and> list_all is_subscribe xs
             \<and> (\<forall>n<length xs. n \<in> set ns)"
  with ev have x: "list_all (on_pair type ps) xs" "list_all is_subscribe xs" "xs \<noteq> []"
    and cv: "\<forall>n<length xs. n \<in> set ns" and e: "evs = xs @ map CallHandle ns"
    by simp_all
  note str = subscribe_then_release [OF d inv h0 r0 x cv, of throws]
  show "subs_sent ?s = subs_sent s0 + 1"
    unfolding e by (rule str(1))
  show "unsubs_sent ?s = unsubs_sent s0 + 1"
    unfolding e by (rule str(2))
  show "\<not> registered ?key ?s"
    unfolding e by (rule str(3))
qed

theorem C1_ref_counting_witness:
  "buildKey sample_stringify ''candle'' candles_a = buildKey sample_stringify ''candle'' candles_b
   \<and> list_all (on_pair ''candle'' candles_a) shared_events
   \<and> methods_since open_idle (run sample_stringify never_throws shared_events open_idle)
       = [''subscribe'', ''unsubscribe'']
   \<and> consumers (buildKey sample_stringify ''candle'' candles_a)
        (run sample_stringify never_throws shared_events open_idle) = []
   \<and> subs_sent (run sample_stringify never_throws shared_events open_idle) = 1
   \<and> unsubs_sent (run sample_stringify never_throws shared_events open_idle) = 1
   \<and> \<not> registered (buildKey sample_stringify ''candle'' candles_a)
         (run sample_stringify never_throws shared_events open_idle)
   \<and> sent (step sample_stringify never_throws (CallSubscribe ''candle'' candles_a 0) open_idle)
       = [(0, WireMessage ''subscribe'' ''candle'' candles_a)]
   \<and> sent (step sample_stringify never_throws (CallHandle 0) two_consumers) = sent two_consumers
   \<and> consumers ''trades:{\"coin\":\"BTC\"}''
        (step sample_stringify never_throws (CallHandle 0) two_consumers) = [1]"
proof -
  let ?xs = "[CallSubscribe ''candle'' candles_a 0, CallSubscribe ''candle'' candles_b 1]"
  let ?ns = "[1, 0 :: nat]"
  note c1 = C1_ref_counting [where ps = candles_a and ps' = candles_b
      and stringify = sample_stringify and type = "''candle''" and s = open_idle and i = 0
      and throws = never_throws and callback = 0 and s0 = open_idle and evs = shared_events
      and xs = ?xs and ns = ?ns]
  note c1h = C1_ref_counting [where stringify = sample_stringify and throws = never_throws
      and s = two_consumers and i = 0 and n = 0]
  have d: "distinct (map fst candles_a) \<and> distinct (map fst candles_b)
      \<and> map_of candles_a = map_of candles_b"
    by (auto simp: candles_a_def candles_b_def)
  have o: "socketOpen open_idle \<and> \<not> paused open_idle \<and> socket open_idle = Some 0
      \<and> handles open_idle = [] \<and> sent open_idle = []"
    by (simp add: open_idle_eq socketOpen_def)
  have nr: "\<not> registered (buildKey sample_stringify ''candle'' candles_a) open_idle"
    by (simp add: registered_def open_idle_eq)
  have ev: "list_all (on_pair ''candle'' candles_a) shared_events"
    by (auto simp: shared_events_def candles_a_def candles_b_def)
  have sh: "shared_events = ?xs @ map CallHandle ?ns \<and> ?xs \<noteq> [] \<and> list_all is_subscribe ?xs
      \<and> (\<forall>n<length ?xs. n \<in> set ?ns)"
    by (auto simp: shared_events_def)
  have z: "subs_sent open_idle = 0 \<and> unsubs_sent open_idle = 0"
    by (simp add: subs_sent_def unsubs_sent_def count_method_def open_idle_eq)
  have rc: "spec_ref_count [] [] shared_events = [''subscribe'', ''unsubscribe'']"
    by (simp add: shared_events_def set_add_def)
  have sc: "spec_consumers [] [] shared_events = []"
    by (simp add: shared_events_def set_add_def)
  have t: "socketOpen two_consumers \<and> socket two_consumers = Some 0
      \<and> 0 < length (handles two_consumers)"
    by (simp add: two_consumers_eq socketOpen_def)
  have tk: "h_key (handles two_consumers ! 0) = ''trades:{\"coin\":\"BTC\"}''
      \<and> h_callback (handles two_consumers ! 0) = 0
      \<and> consumers ''trades:{\"coin\":\"BTC\"}'' two_consumers = [0, 1]
      \<and> registered ''trades:{\"coin\":\"BTC\"}'' two_consumers"
    by (simp add: two_consumers_eq consumers_def registered_def btc_trades_def)
  from c1 d have 1: "buildKey sample_stringify ''candle'' candles_a
      = buildKey sample_stringify ''candle'' candles_b"
    by blast
  from c1 o nr have 2: "sent (step sample_stringify never_throws
        (CallSubscribe ''candle'' candles_a 0) open_idle)
      = sent open_idle @ [(0, WireMessage ''subscribe'' ''candle'' candles_a)]"
    by simp
  from c1 o nr d ev sh
  have 3: "methods_since open_idle (run sample_stringify never_throws shared_events open_idle)
         = spec_ref_count [] [] shared_events
       \<and> consumers (buildKey sample_stringify ''candle'' candles_a)
            (run sample_stringify never_throws shared_events open_idle)
          = spec_consumers [] [] shared_events
       \<and> subs_sent (run sample_stringify never_throws shared_events open_idle) = subs_sent open_idle + 1
       \<and> unsubs_sent (run sample_stringify never_throws shared_events open_idle) = unsubs_sent open_idle + 1
       \<and> \<not> registered (buildKey sample_stringify ''candle'' candles_a)
            (run sample_stringify never_throws shared_events open_idle)"
    by blast
  from c1h t have 4: "sent (step sample_stringify never_throws (CallHandle 0) two_consumers) =
          sent two_consumers @ (if registered (h_key (handles two_consumers ! 0)) two_consumers
                       \<and> removeAll (h_callback (handles two_consumers ! 0))
                            (consumers (h_key (handles two_consumers ! 0)) two_consumers) = []
                    then [(0, WireMessage ''unsubscribe'' (h_type (handles two_consumers ! 0))
                                (h_params (handles two_consumers ! 0)))]
                    else [])
        \<and> consumers (h_key (handles two_consumers ! 0))
              (step sample_stringify never_throws (CallHandle 0) two_consumers)
            = removeAll (h_callback (handles two_consumers ! 0))
                (consumers (h_key (handles two_consumers ! 0)) two_consumers)"
    by blast
  from 4 have 5: "sent (step sample_stringify never_throws (CallHandle 0) two_consumers)
        = sent two_consumers
      \<and> consumers ''trades:{\"coin\":\"BTC\"}''
          (step sample_stringify never_throws (CallHandle 0) two_consumers) = [1]"
    by (simp only: tk) simp
  show ?thesis
    using 1 2 3 5 ev o z by (simp add: rc sc)
qed

section \<open>Reconnection: the ceiling, and what leaves the error state\<close>

lemma status_send [simp]: "status (send m s) = status s"
  by (simp add: send_def split: option.splits)

lemma reconnectAttempts_send [simp]: "reconnectAttempts (send m s) = reconnectAttempts s"
  by (simp add: send_def split: option.splits)

lemma status_fold_send:
  "status (fold (\<lambda>(key, sub). send (WireMessage m (sub_type sub) (sub_params sub))) subs s) = status s"
  by (induction subs arbitrary: s) auto

lemma status_onopen: "status (onopen s) = StConnected"
  by (simp add: onopen_def Let_def sendSubscribe_eq status_fold_send setStatus_def)

lemma status_unsubscribe: "status (unsubscribe h s) = status s"
  by (simp add: unsubscribe_def Let_def sendUnsubscribe_def split: option.splits)

lemma connect_closed:
  assumes "\<not> socketOpen s" and "\<not> ctorThrows s"
  shows "connect s = s\<lparr>status := StConnecting, socket := Some (length (sockets s)),
                      sockets := sockets s @ [CONNECTING]\<rparr>"
  using assms by (simp add: connect_def setStatus_def Let_def)

lemma subscribe_closed:
  assumes "\<not> socketOpen s" and "\<not> ctorThrows s"
  shows "status (snd (subscribe js t ps cb s)) = StConnecting"
    and "reconnectAttempts (snd (subscribe js t ps cb s)) = reconnectAttempts s"
    and "sockets (snd (subscribe js t ps cb s)) = sockets s @ [CONNECTING]"
    and "socket (snd (subscribe js t ps cb s)) = Some (length (sockets s))"
proof -
  let ?s1 = "connect s"
  have c: "?s1 = s\<lparr>status := StConnecting, socket := Some (length (sockets s)),
                      sockets := sockets s @ [CONNECTING]\<rparr>"
    by (rule connect_closed [OF assms])
  have o: "\<not> socketOpen ?s1" using assms(1) by simp
  have e: "snd (subscribe js t ps cb s) =
     (case map_of (subscriptions ?s1) (buildKey js t ps) of
        Some sub \<Rightarrow> ?s1\<lparr>subscriptions :=
              map_replace (buildKey js t ps) (sub\<lparr>callbacks := set_add cb (callbacks sub)\<rparr>)
                (subscriptions ?s1)\<rparr>
      | None \<Rightarrow> ?s1\<lparr>subscriptions := subscriptions ?s1 @
              [(buildKey js t ps, \<lparr>sub_type = t, sub_params = ps, callbacks = [cb]\<rparr>)]\<rparr>)"
    using assms(1) o by (simp add: subscribe_def Let_def split: option.splits)
  show "status (snd (subscribe js t ps cb s)) = StConnecting"
    unfolding e by (cases "map_of (subscriptions ?s1) (buildKey js t ps)") (simp_all add: c)
  show "reconnectAttempts (snd (subscribe js t ps cb s)) = reconnectAttempts s"
    unfolding e by (cases "map_of (subscriptions ?s1) (buildKey js t ps)") (simp_all add: c)
  show "sockets (snd (subscribe js t ps cb s)) = sockets s @ [CONNECTING]"
    unfolding e by (cases "map_of (subscriptions ?s1) (buildKey js t ps)") (simp_all add: c)
  show "socket (snd (subscribe js t ps cb s)) = Some (length (sockets s))"
    unfolding e by (cases "map_of (subscriptions ?s1) (buildKey js t ps)") (simp_all add: c)
qed

lemma step_subscribe_closed:
  assumes "\<not> socketOpen s" and "\<not> ctorThrows s"
  shows "status (step js thr (CallSubscribe t ps cb) s) = StConnecting"
    and "reconnectAttempts (step js thr (CallSubscribe t ps cb) s) = reconnectAttempts s"
    and "sockets (step js thr (CallSubscribe t ps cb) s) = sockets s @ [CONNECTING]"
  using subscribe_closed [OF assms, of js t ps cb] by (simp_all add: split_beta)

lemma socketOpen_paused [simp]: "socketOpen (s\<lparr>paused := x\<rparr>) = socketOpen s"
  by (simp add: socketOpen_iff)

lemma socketOpen_pending [simp]: "socketOpen (s\<lparr>pending := x\<rparr>) = socketOpen s"
  by (simp add: socketOpen_iff)

lemma socketOpen_reconnectTimeout [simp]: "socketOpen (s\<lparr>reconnectTimeout := x\<rparr>) = socketOpen s"
  by (simp add: socketOpen_iff)

lemma pause_closed:
  assumes "\<not> socketOpen s" and "\<not> paused s"
  shows "pause s = (case reconnectTimeout s of
             Some t \<Rightarrow> s\<lparr>paused := True, pending := removeAll t (pending s), reconnectTimeout := None\<rparr>
           | None \<Rightarrow> s\<lparr>paused := True\<rparr>)"
  using assms by (cases "reconnectTimeout s") (simp_all add: pause_def Let_def clearTimeout_def)

lemma pause_resume_closed:
  assumes "\<not> socketOpen s" and "\<not> ctorThrows s" and "\<not> paused s" and "subscriptions s \<noteq> []"
  shows "status (resume (pause s)) = StConnecting"
proof -
  note p = pause_closed [OF assms(1,3)]
  have o: "\<not> socketOpen ((pause s)\<lparr>paused := False\<rparr>)" and c: "\<not> ctorThrows ((pause s)\<lparr>paused := False\<rparr>)"
    and ps: "paused (pause s)" and sb: "subscriptions (pause s) = subscriptions s"
    using assms by (cases "reconnectTimeout s"; simp add: p)+
  show ?thesis
    using o ps sb assms(4) by (simp add: resume_def Let_def connect_closed [OF o c])
qed

lemma status_pause: "status (pause s) = status s"
proof -
  have f: "status (fold (\<lambda>(key, sub). sendUnsubscribe (sub_type sub) (sub_params sub)) subs s') = status s'"
    for subs s'
    by (simp add: sendUnsubscribe_eq status_fold_send)
  show ?thesis
    by (simp add: pause_def Let_def f clearTimeout_def split: option.splits)
qed

lemma status_disconnect: "status (disconnect s) = StDisconnected"
  by (simp add: disconnect_def setStatus_def Let_def)

lemma close_schedules:
  assumes "attempting i t a s" and "a < maxReconnectAttempts"
  shows "status (run js thr [SocketErrored i, SocketClosed i] s) = StDisconnected"
    and "pending (run js thr [SocketErrored i, SocketClosed i] s) = [t]"
    and "reconnectAttempts (run js thr [SocketErrored i, SocketClosed i] s) = Suc a"
  using assms
  by (simp_all add: attempting_iff run_Cons onerror_def onclose_def setStatus_def
      attemptReconnect_def setTimeout_def Let_def)

lemma exhausted_state:
  assumes "attempting i t 0 s"
    and "sx = run js thr (failure_events i t maxReconnectAttempts
              @ [SocketErrored (i + maxReconnectAttempts), SocketClosed (i + maxReconnectAttempts)]) s"
  shows "status sx = StError" and "pending sx = []"
    and "timers sx = timers s @ map spec_delay [1..<Suc maxReconnectAttempts]"
    and "list_all (\<lambda>r. r = CLOSED) (sockets sx)"
    and "socket sx = Some (i + maxReconnectAttempts)"
    and "length (sockets sx) = Suc (i + maxReconnectAttempts)"
    and "\<not> ctorThrows sx" and "\<not> paused sx"
    and "reconnectAttempts sx = maxReconnectAttempts"
    and "\<not> socketOpen sx"
proof -
  let ?n = maxReconnectAttempts
  let ?s1 = "run js thr (failure_events i t ?n) s"
  have k: "0 + ?n \<le> maxReconnectAttempts" by simp
  from failure_run [OF assms(1) k, of js thr]
  have at: "attempting (i + ?n) (t + ?n) ?n ?s1"
    and tm: "timers ?s1 = timers s @ map spec_delay [1..<Suc ?n]"
    by (simp_all del: upt_Suc)
  from assms(2) have sx: "sx = ?s1\<lparr>sockets := (sockets ?s1)[i + ?n := CLOSED], status := StError\<rparr>"
    by (simp add: run_append exhausted [OF at])
  show "status sx = StError" by (simp add: sx)
  show "pending sx = []" using at by (simp add: sx attempting_iff)
  show "timers sx = timers s @ map spec_delay [1..<Suc ?n]" using tm by (simp add: sx)
  show cl: "list_all (\<lambda>r. r = CLOSED) (sockets sx)"
    using at by (auto simp: sx attempting_iff list_all_length nth_list_update less_Suc_eq)
  show sk: "socket sx = Some (i + ?n)" and ln: "length (sockets sx) = Suc (i + ?n)"
    and "\<not> ctorThrows sx" and "\<not> paused sx" and "reconnectAttempts sx = ?n"
    using at by (simp_all add: sx attempting_iff)
  show "\<not> socketOpen sx"
    using cl sk ln by (auto simp: socketOpen_iff list_all_length)
qed

lemma tenth_close:
  assumes "attempting i t 0 s"
    and "sl = run js thr (failure_events i t (maxReconnectAttempts - 1)
              @ [SocketErrored (i + (maxReconnectAttempts - 1)),
                 SocketClosed (i + (maxReconnectAttempts - 1))]) s"
  shows "status sl = StDisconnected" and "pending sl = [t + (maxReconnectAttempts - 1)]"
    and "reconnectAttempts sl = maxReconnectAttempts"
proof -
  let ?m = "maxReconnectAttempts - 1"
  have k: "0 + ?m \<le> maxReconnectAttempts" by simp
  have l: "?m < maxReconnectAttempts" by (simp add: maxReconnectAttempts_def)
  from failure_run [OF assms(1) k, of js thr]
  have at: "attempting (i + ?m) (t + ?m) ?m (run js thr (failure_events i t ?m) s)"
    by simp
  note c = close_schedules [OF at l, of js thr]
  have e: "sl = run js thr [SocketErrored (i + ?m), SocketClosed (i + ?m)]
      (run js thr (failure_events i t ?m) s)"
    by (simp only: assms(2) run_append)
  show "status sl = StDisconnected" unfolding e by (rule c(1))
  show "pending sl = [t + ?m]" unfolding e by (rule c(2))
  show "reconnectAttempts sl = maxReconnectAttempts"
    unfolding e using c(3) l by simp
qed

lemma attempting_connecting0: "attempting 0 0 0 connecting0"
  by (simp add: attempting_def connecting0_eq)

lemma exhausted0_run:
  "exhausted0 = run sample_stringify never_throws
      (failure_events 0 0 maxReconnectAttempts
         @ [SocketErrored (0 + maxReconnectAttempts), SocketClosed (0 + maxReconnectAttempts)])
      connecting0"
  by (simp only: exhausted0_def maxReconnectAttempts_def) simp

lemma tenth_failure0_run:
  "tenth_failure0 = run sample_stringify never_throws
      (failure_events 0 0 (maxReconnectAttempts - 1)
         @ [SocketErrored (0 + (maxReconnectAttempts - 1)),
            SocketClosed (0 + (maxReconnectAttempts - 1))])
      connecting0"
  by (simp only: tenth_failure0_def maxReconnectAttempts_def) simp

text \<open>
  C4, as stated, fails.  The claim says that after 10 consecutive failed attempts no
  further reconnect is scheduled and that the state is held at error until a call of
  \<open>reconnect\<close>.  After the attempt of the tenth reconnect has failed (\<open>exhausted0\<close>, status
  error), a consumer's call of \<open>subscribe\<close> calls \<open>connect\<close>: the status becomes connecting
  and, when the new socket opens, connected with the counter at 0, and \<open>reconnect\<close> was
  never called.  And after ten failed connection attempts in a row, counted from the
  first (\<open>tenth_failure0\<close>), the status is disconnected and the tenth reconnect is pending.
\<close>

theorem C4_counterexample:
  "status exhausted0 = StError
   \<and> status (step sample_stringify never_throws
        (CallSubscribe ''trades'' [(''coin'', JStr ''BTC'')] 0) exhausted0) = StConnecting
   \<and> status (run sample_stringify never_throws
        [CallSubscribe ''trades'' [(''coin'', JStr ''BTC'')] 0, SocketOpened 11] exhausted0)
       = StConnected
   \<and> reconnectAttempts (run sample_stringify never_throws
        [CallSubscribe ''trades'' [(''coin'', JStr ''BTC'')] 0, SocketOpened 11] exhausted0) = 0
   \<and> status tenth_failure0 = StDisconnected
   \<and> pending tenth_failure0 = [9]"
proof -
  note x = exhausted_state [OF attempting_connecting0 exhausted0_run]
  define s1 where "s1 = step sample_stringify never_throws
      (CallSubscribe ''trades'' [(''coin'', JStr ''BTC'')] 0) exhausted0"
  note sc = step_subscribe_closed [OF x(10) x(7), of sample_stringify never_throws
      "''trades''" "[(''coin'', JStr ''BTC'')]" 0, folded s1_def]
  have l: "length (sockets exhausted0) = 11"
    using x(6) by (simp add: maxReconnectAttempts_def)
  have o: "11 < length (sockets s1) \<and> sockets s1 ! 11 = CONNECTING"
    using l by (simp add: sc(3) nth_append)
  have "run sample_stringify never_throws
        [CallSubscribe ''trades'' [(''coin'', JStr ''BTC'')] 0, SocketOpened 11] exhausted0
      = step sample_stringify never_throws (SocketOpened 11) s1"
    by (simp only: run_Cons run_Nil s1_def)
  also have "\<dots> = onopen (s1\<lparr>sockets := (sockets s1)[11 := OPEN]\<rparr>)"
    using o by simp
  finally have r: "run sample_stringify never_throws
        [CallSubscribe ''trades'' [(''coin'', JStr ''BTC'')] 0, SocketOpened 11] exhausted0
      = onopen (s1\<lparr>sockets := (sockets s1)[11 := OPEN]\<rparr>)" .
  note t = tenth_close [OF attempting_connecting0 tenth_failure0_run]
  have p: "pending tenth_failure0 = [9]"
    using t(2) by (simp add: maxReconnectAttempts_def)
  show ?thesis
    using x(1) sc(1) t(1) p
    by (simp only: r status_onopen reconnectAttempts_onopen s1_def [symmetric])
qed

text \<open>
  C4, amended.  From a state in which a connection attempt is under way or a connection
  is up (\<open>attempting i t 0 s\<close>), a sequence of \<open>k\<close> consecutive failures, \<open>k\<close> at most 10,
  sets \<open>k\<close> timers, the \<open>j\<close>-th with the delay \<open>min (base * 2^(j-1)) max\<close>, and leaves the
  counter at \<open>k\<close>; the open handler of any socket resets the counter to 0.  The counter
  counts scheduled reconnects: when the tenth close event has been handled the tenth
  reconnect is pending and the status is disconnected.  When the attempt made by the
  tenth reconnect has failed too, no timer is set, the status is error and the counter
  stays at 10.  From then on no event of the environment (socket or timer) changes the
  state, and \<open>pause\<close>, \<open>resume\<close> and handle invocations leave the status at error.  The
  calls that leave it are \<open>reconnect\<close>, which resets the counter to 0 and starts a
  connection; \<open>subscribe\<close> and \<open>connect\<close>, which start a connection with the counter still
  at 10; \<open>disconnect\<close>; and \<open>pause\<close> followed by \<open>resume\<close> when there are subscriptions.
\<close>

theorem C4_backoff_and_ceiling:
  "(attempting i t 0 s \<and> k \<le> maxReconnectAttempts \<longrightarrow>
      timers (run stringify throws (failure_events i t k) s)
        = timers s @ map spec_delay [1..<Suc k]
      \<and> reconnectAttempts (run stringify throws (failure_events i t k) s) = k)
   \<and> (attempting i t 0 s
       \<and> sl = run stringify throws (failure_events i t (maxReconnectAttempts - 1)
                @ [SocketErrored (i + (maxReconnectAttempts - 1)),
                   SocketClosed (i + (maxReconnectAttempts - 1))]) s
       \<longrightarrow>
         status sl = StDisconnected \<and> pending sl = [t + (maxReconnectAttempts - 1)]
         \<and> reconnectAttempts sl = maxReconnectAttempts)
   \<and> (attempting i t 0 s
       \<and> sx = run stringify throws (failure_events i t maxReconnectAttempts
                @ [SocketErrored (i + maxReconnectAttempts), SocketClosed (i + maxReconnectAttempts)]) s
       \<longrightarrow>
         status sx = StError \<and> pending sx = []
         \<and> timers sx = timers s @ map spec_delay [1..<Suc maxReconnectAttempts]
         \<and> reconnectAttempts sx = maxReconnectAttempts
         \<and> (\<forall>e. is_environment e \<longrightarrow> step stringify throws e sx = sx)
         \<and> status (step stringify throws CallPause sx) = StError
         \<and> status (step stringify throws CallResume sx) = StError
         \<and> status (step stringify throws (CallHandle n) sx) = StError
         \<and> reconnectAttempts (reconnect sx) = 0
         \<and> status (reconnect sx) = StConnecting
         \<and> status (step stringify throws (CallSubscribe type ps callback) sx) = StConnecting
         \<and> reconnectAttempts (step stringify throws (CallSubscribe type ps callback) sx)
              = maxReconnectAttempts
         \<and> status (step stringify throws CallConnect sx) = StConnecting
         \<and> reconnectAttempts (step stringify throws CallConnect sx) = maxReconnectAttempts
         \<and> status (step stringify throws CallDisconnect sx) = StDisconnected
         \<and> (subscriptions sx \<noteq> [] \<longrightarrow>
               status (run stringify throws [CallPause, CallResume] sx) = StConnecting))
   \<and> (j < length (sockets s') \<and> sockets s' ! j = CONNECTING \<longrightarrow>
         reconnectAttempts (step stringify throws (SocketOpened j) s') = 0)"
proof (intro conjI impI)
  assume h: "attempting i t 0 s \<and> k \<le> maxReconnectAttempts"
  then have a: "attempting i t 0 s" and k: "0 + k \<le> maxReconnectAttempts" by simp_all
  from failure_run [OF a k, of stringify throws]
  show "timers (run stringify throws (failure_events i t k) s) = timers s @ map spec_delay [1..<Suc k]"
    and "reconnectAttempts (run stringify throws (failure_events i t k) s) = k"
    by (simp_all add: attempting_iff del: upt_Suc)
next
  assume h: "attempting i t 0 s
       \<and> sl = run stringify throws (failure_events i t (maxReconnectAttempts - 1)
                @ [SocketErrored (i + (maxReconnectAttempts - 1)),
                   SocketClosed (i + (maxReconnectAttempts - 1))]) s"
  note t = tenth_close [OF h [THEN conjunct1] h [THEN conjunct2]]
  show "status sl = StDisconnected" by (rule t(1))
  show "pending sl = [t + (maxReconnectAttempts - 1)]" by (rule t(2))
  show "reconnectAttempts sl = maxReconnectAttempts" by (rule t(3))
next
  assume h: "attempting i t 0 s
       \<and> sx = run stringify throws (failure_events i t maxReconnectAttempts
                @ [SocketErrored (i + maxReconnectAttempts), SocketClosed (i + maxReconnectAttempts)]) s"
  note x = exhausted_state [OF h [THEN conjunct1] h [THEN conjunct2]]
  show "status sx = StError" by (rule x(1))
  show "pending sx = []" by (rule x(2))
  show "timers sx = timers s @ map spec_delay [1..<Suc maxReconnectAttempts]" by (rule x(3))
  show "reconnectAttempts sx = maxReconnectAttempts" by (rule x(9))
  show "\<forall>e. is_environment e \<longrightarrow> step stringify throws e sx = sx"
    using quiescent [OF x(4) x(2)] by blast
  show "status (step stringify throws CallPause sx) = StError"
    by (simp add: status_pause x(1))
  show "status (step stringify throws CallResume sx) = StError"
    using x(8) by (simp add: resume_def x(1))
  show "status (step stringify throws (CallHandle n) sx) = StError"
    by (simp add: status_unsubscribe x(1))
  have r: "socket sx = Some (i + maxReconnectAttempts)"
    "i + maxReconnectAttempts < length (sockets sx)"
    "sockets sx ! (i + maxReconnectAttempts) = CLOSED"
    using x(4,5,6) by (simp_all add: list_all_length)
  from reconnect_exhausted [OF r x(7)]
  show "reconnectAttempts (reconnect sx) = 0" and "status (reconnect sx) = StConnecting"
    by simp_all
  show "status (step stringify throws (CallSubscribe type ps callback) sx) = StConnecting"
    by (rule step_subscribe_closed(1) [OF x(10) x(7)])
  show "reconnectAttempts (step stringify throws (CallSubscribe type ps callback) sx)
      = maxReconnectAttempts"
    using step_subscribe_closed(2) [OF x(10) x(7), of stringify throws type ps callback] x(9)
    by simp
  show "status (step stringify throws CallConnect sx) = StConnecting"
    by (simp add: connect_closed [OF x(10) x(7)])
  show "reconnectAttempts (step stringify throws CallConnect sx) = maxReconnectAttempts"
    by (simp add: connect_closed [OF x(10) x(7)] x(9))
  show "status (step stringify throws CallDisconnect sx) = StDisconnected"
    by (simp add: status_disconnect)
  assume "subscriptions sx \<noteq> []"
  from pause_resume_closed [OF x(10) x(7) x(8) this]
  show "status (run stringify throws [CallPause, CallResume] sx) = StConnecting"
    by (simp add: run_Cons)
next
  assume "j < length (sockets s') \<and> sockets s' ! j = CONNECTING"
  then show "reconnectAttempts (step stringify throws (SocketOpened j) s') = 0"
    by (simp add: reconnectAttempts_onopen)
qed

theorem C4_backoff_and_ceiling_witness:
  "attempting 0 0 0 connecting0
   \<and> timers (run sample_stringify never_throws (failure_events 0 0 10) connecting0)
       = [2000, 4000, 8000, 16000, 30000, 30000, 30000, 30000, 30000, 30000]
   \<and> reconnectAttempts (run sample_stringify never_throws (failure_events 0 0 10) connecting0) = 10
   \<and> status tenth_failure0 = StDisconnected
   \<and> pending tenth_failure0 = [9]
   \<and> status exhausted0 = StError
   \<and> pending exhausted0 = []
   \<and> timers exhausted0 = [2000, 4000, 8000, 16000, 30000, 30000, 30000, 30000, 30000, 30000]
   \<and> step sample_stringify never_throws (SocketClosed 10) exhausted0 = exhausted0
   \<and> reconnectAttempts (reconnect exhausted0) = 0
   \<and> status (step sample_stringify never_throws
         (CallSubscribe ''trades'' [(''coin'', JStr ''BTC'')] 0) exhausted0) = StConnecting
   \<and> reconnectAttempts (step sample_stringify never_throws (SocketOpened 0) connecting0) = 0"
proof -
  note a = attempting_connecting0
  have m: "maxReconnectAttempts = 10"
    by (simp add: maxReconnectAttempts_def)
  have o: "0 < length (sockets connecting0) \<and> sockets connecting0 ! 0 = CONNECTING"
    by (simp add: connecting0_eq)
  have t: "timers connecting0 = []"
    by (simp add: connecting0_eq)
  have e: "is_environment (SocketClosed 10)"
    by simp
  note c4 = C4_backoff_and_ceiling [where i = 0 and t = 0 and s = connecting0 and k = 10
      and stringify = sample_stringify and throws = never_throws and sx = exhausted0
      and sl = tenth_failure0 and j = 0 and s' = connecting0 and n = 0
      and type = "''trades''" and ps = "[(''coin'', JStr ''BTC'')]" and callback = 0]
  from c4 a m have 1: "timers (run sample_stringify never_throws (failure_events 0 0 10) connecting0)
        = timers connecting0 @ map spec_delay [1..<Suc 10]
      \<and> reconnectAttempts (run sample_stringify never_throws (failure_events 0 0 10) connecting0) = 10"
    by simp
  from c4 a tenth_failure0_run
  have 6: "status tenth_failure0 = StDisconnected
      \<and> pending tenth_failure0 = [0 + (maxReconnectAttempts - 1)]"
    by blast
  from c4 a exhausted0_run have 2: "status exhausted0 = StError \<and> pending exhausted0 = []
         \<and> timers exhausted0 = timers connecting0 @ map spec_delay [1..<Suc maxReconnectAttempts]
         \<and> (\<forall>e. is_environment e \<longrightarrow> step sample_stringify never_throws e exhausted0 = exhausted0)
         \<and> reconnectAttempts (reconnect exhausted0) = 0
         \<and> status (step sample_stringify never_throws
               (CallSubscribe ''trades'' [(''coin'', JStr ''BTC'')] 0) exhausted0) = StConnecting"
    by blast
  from c4 o have 3: "reconnectAttempts (step sample_stringify never_throws (SocketOpened 0) connecting0) = 0"
    by blast
  from 2 e have 4: "step sample_stringify never_throws (SocketClosed 10) exhausted0 = exhausted0"
    by blast
  from 2 have 5: "timers exhausted0 = map spec_delay [1..<Suc 10]"
    by (simp only: t m append_Nil)
  from 6 have 7: "pending tenth_failure0 = [9]"
    by (simp add: m)
  show ?thesis
    using a 1 2 3 4 5 6 7 by (simp only: t append_Nil spec_delays_10)
qed

end
